theory Spec2Isabelle
  imports Complex_Main
begin

section \<open>Data model (types.ts)\<close>

text \<open>
  A JavaScript \<open>number\<close> is modelled as an exact rational: the rounding of IEEE doubles
  is not part of this embedding. A timestamp is a reading of the clock. Optional fields
  (\<open>sku?: string\<close>) are \<open>option\<close> values; \<open>None\<close> stands for \<open>undefined\<close> and
  \<open>null\<close>. Only the fields that the sync code reads are kept; the remaining fields of the
  upstream records are carried through untouched by the code and never inspected.
\<close>

type_synonym number = rat
type_synonym timestamp = nat

record LoyverseCategory =
  category_ident :: string
  category_name :: string

record LoyverseItem =
  item_ident :: string
  item_name :: string
  description :: "string option"
  category_id :: "string option"

record LoyverseVariant =
  variant_id :: string
  item_id :: string
  sku :: "string option"
  option1_value :: "string option"
  option2_value :: "string option"
  option3_value :: "string option"
  default_price :: number

record LoyverseInventory =
  inv_variant_id :: string
  store_id :: string
  in_stock :: number
  cost :: "number option"

record ProductWithInventory =
  variant :: LoyverseVariant
  item :: LoyverseItem
  inventory :: LoyverseInventory
  categoryName :: "string option"

record SupabaseProduct =
  prod_sku :: string
  prod_name :: "string option"
  prod_category :: "string option"
  prod_desc :: "string option"
  prod_price :: "number option"
  prod_qty :: "int option"
  prod_image :: "string option"

subsection \<open>JavaScript truthiness\<close>

text \<open>
  An optional string is truthy when it is present and not empty; \<open>a || b\<close> yields \<open>b\<close>
  when \<open>a\<close> is falsy. On numbers, \<open>0\<close> is falsy.
\<close>

definition str_or :: "string option \<Rightarrow> string \<Rightarrow> string" where
  "str_or v d = (case v of None \<Rightarrow> d | Some s \<Rightarrow> if s = [] then d else s)"

definition str_or_null :: "string option \<Rightarrow> string option" where
  "str_or_null v = (case v of None \<Rightarrow> None | Some s \<Rightarrow> if s = [] then None else Some s)"

definition num_or :: "number option \<Rightarrow> number \<Rightarrow> number" where
  "num_or v d = (case v of None \<Rightarrow> d | Some q \<Rightarrow> if q = 0 then d else q)"

text \<open>\<open>Array.prototype.join\<close> on a list of strings.\<close>

fun js_join :: "string \<Rightarrow> string list \<Rightarrow> string" where
  "js_join sep [] = []"
| "js_join sep [x] = x"
| "js_join sep (x # y # ys) = x @ sep @ js_join sep (y # ys)"

section \<open>Flattening one product (supabase-service.ts, upsertProducts)\<close>

text \<open>\<open>if (v) options.push(v)\<close>\<close>

definition push_if :: "string option \<Rightarrow> string list \<Rightarrow> string list" where
  "push_if v options = (case v of None \<Rightarrow> options
     | Some s \<Rightarrow> if s = [] then options else options @ [s])"

definition productOptions :: "LoyverseVariant \<Rightarrow> string list" where
  "productOptions v =
     push_if (option3_value v) (push_if (option2_value v) (push_if (option1_value v) []))"

definition productName :: "LoyverseItem \<Rightarrow> LoyverseVariant \<Rightarrow> string" where
  "productName i v =
     (let options = productOptions v in
      if length options > 0
      then item_name i @ '' ('' @ js_join '', '' options @ '')''
      else item_name i)"

text \<open>The effective SKU: \<open>variant.sku || variant.variant_id\<close>.\<close>

definition effectiveSku :: "LoyverseVariant \<Rightarrow> string" where
  "effectiveSku v = str_or (sku v) (variant_id v)"

definition toSupabaseProduct :: "ProductWithInventory \<Rightarrow> SupabaseProduct" where
  "toSupabaseProduct p =
     (let totalQty = num_or (Some (in_stock (inventory p))) 0 in
      \<lparr> prod_sku = effectiveSku (variant p),
        prod_name = Some (productName (item p) (variant p)),
        prod_category = str_or_null (categoryName p),
        prod_desc = str_or_null (description (item p)),
        prod_price = Some (default_price (variant p)),
        prod_qty = Some \<lfloor>totalQty\<rfloor>,
        prod_image = None \<rparr>)"

text \<open>\<open>products.filter(p => p.sku)\<close>\<close>

definition validProducts :: "ProductWithInventory list \<Rightarrow> SupabaseProduct list" where
  "validProducts productsData =
     filter (\<lambda>p. prod_sku p \<noteq> []) (map toSupabaseProduct productsData)"

section \<open>Joining the catalog (sync-service.ts, steps 1 to 5)\<close>

text \<open>
  \<open>new Map(pairs)\<close> inserts the pairs from left to right, so a later pair with the same
  key replaces an earlier one.
\<close>

definition js_Map :: "('k \<times> 'v) list \<Rightarrow> ('k \<rightharpoonup> 'v)" where
  "js_Map kvs = fold (\<lambda>(k, v) m. m(k \<mapsto> v)) kvs Map.empty"

definition categoryMap :: "LoyverseCategory list \<Rightarrow> (string \<rightharpoonup> string)" where
  "categoryMap categories = js_Map (map (\<lambda>c. (category_ident c, category_name c)) categories)"

definition itemsMap :: "LoyverseItem list \<Rightarrow> (string \<rightharpoonup> LoyverseItem)" where
  "itemsMap items = js_Map (map (\<lambda>i. (item_ident i, i)) items)"

text \<open>
  \<open>inventoryLevels.forEach(inv => inventoryMap.set(inv.variant_id,
  (inventoryMap.get(inv.variant_id) || 0) + inv.in_stock))\<close>
\<close>

definition inventoryMap :: "LoyverseInventory list \<Rightarrow> (string \<rightharpoonup> number)" where
  "inventoryMap inventoryLevels =
     fold (\<lambda>lvl m. m(inv_variant_id lvl \<mapsto> num_or (m (inv_variant_id lvl)) 0 + in_stock lvl))
       inventoryLevels Map.empty"

text \<open>The body of \<open>variants.map(variant => ...)\<close>; \<open>None\<close> is the \<open>null\<close> that the
  following \<open>filter\<close> drops.\<close>

definition combineVariant ::
  "(string \<rightharpoonup> string) \<Rightarrow> (string \<rightharpoonup> LoyverseItem) \<Rightarrow> LoyverseInventory list \<Rightarrow>
   LoyverseVariant \<Rightarrow> ProductWithInventory option" where
  "combineVariant cmap imap inventoryLevels v =
     (case imap (item_id v) of
        None \<Rightarrow> None
      | Some i \<Rightarrow>
          (let totalQty = num_or (inventoryMap inventoryLevels (variant_id v)) 0 in
           Some \<lparr> variant = v,
                  item = i,
                  inventory =
                    (case find (\<lambda>lvl. inv_variant_id lvl = variant_id v) inventoryLevels of
                       Some lvl \<Rightarrow> lvl\<lparr>in_stock := totalQty\<rparr>
                     | None \<Rightarrow> \<lparr> inv_variant_id = variant_id v, store_id = [],
                                 in_stock = totalQty, cost = None \<rparr>),
                  categoryName =
                    (case category_id i of
                       None \<Rightarrow> None
                     | Some c \<Rightarrow> if c = [] then None else cmap c) \<rparr>))"

definition combineProducts ::
  "(string \<rightharpoonup> string) \<Rightarrow> (string \<rightharpoonup> LoyverseItem) \<Rightarrow> LoyverseInventory list \<Rightarrow>
   LoyverseVariant list \<Rightarrow> ProductWithInventory list" where
  "combineProducts cmap imap inventoryLevels variants =
     List.map_filter (combineVariant cmap imap inventoryLevels) variants"

section \<open>The world outside the sync service\<close>

text \<open>
  A value thrown by a collaborator is either an \<open>Error\<close> object with its message or any
  other value (the error objects that the store client returns are plain objects).
\<close>

datatype thrown = JsError string | NonError

definition errorMessage :: "thrown \<Rightarrow> string" where
  "errorMessage e = (case e of JsError m \<Rightarrow> m | NonError \<Rightarrow> ''Unknown error'')"

datatype SyncStatus = Success | Partial | Failed

record SyncLog =
  sync_type :: string
  products_synced :: nat
  log_errors :: "string list"
  started_at :: timestamp
  completed_at :: timestamp
  status :: SyncStatus

record SyncResult =
  res_products_synced :: nat
  res_products_deleted :: nat
  res_errors :: "string list"
  res_started_at :: timestamp
  res_completed_at :: timestamp

text \<open>The calls that the sync service makes on its two collaborators, in order.\<close>

datatype Call =
    GetAllCategories
  | GetAllItems
  | GetAllVariants
  | GetAllInventoryLevels
  | GetItemsUpdatedAfter timestamp
  | GetVariantsUpdatedAfter timestamp
  | UpsertProducts
  | GetLastSyncTimestamp
  | GetAllProductSkus
  | DeleteProductsBySkus "string list"
  | LogSync string nat "string list" timestamp SyncStatus

text \<open>
  The mutable state: the \<open>products\<close> table (rows in table order, keyed by \<open>sku\<close>), the
  \<open>sync_logs\<close> ledger, the cache file \<open>supabase_product_skus\<close> (\<open>None\<close> when there is
  no readable file), the clock, and the record of the calls made so far.
\<close>

record World =
  products :: "SupabaseProduct list"
  sync_logs :: "SyncLog list"
  sku_cache :: "string list option"
  clock :: timestamp
  calls :: "Call list"

text \<open>
  What the collaborators answer during one pass: the value each upstream fetch returns or
  throws, and which requests the store rejects (an upsert or delete request by the number
  of its chunk, a page of the SKU enumeration by its number).
\<close>

record Env =
  useCache :: bool
  allCategories :: "thrown + LoyverseCategory list"
  allItems :: "thrown + LoyverseItem list"
  allVariants :: "thrown + LoyverseVariant list"
  allInventoryLevels :: "thrown + LoyverseInventory list"
  itemsUpdatedAfter :: "timestamp \<Rightarrow> thrown + LoyverseItem list"
  variantsUpdatedAfter :: "timestamp \<Rightarrow> thrown + LoyverseVariant list"
  upsert_error :: "nat \<Rightarrow> thrown option"
  select_error :: "nat \<Rightarrow> thrown option"
  delete_error :: "nat \<Rightarrow> thrown option"
  log_insert_error :: bool
  last_sync_error :: bool

text \<open>\<open>new Date()\<close> reads the clock, which then moves on.\<close>

definition newDate :: "World \<Rightarrow> timestamp \<times> World" where
  "newDate w = (clock w, w\<lparr>clock := Suc (clock w)\<rparr>)"

definition record_call :: "Call \<Rightarrow> World \<Rightarrow> World" where
  "record_call c w = w\<lparr>calls := calls w @ [c]\<rparr>"

subsection \<open>The upstream client (loyverse-client.ts) at its interface\<close>

definition getAllCategories :: "Env \<Rightarrow> World \<Rightarrow> (thrown + LoyverseCategory list) \<times> World" where
  "getAllCategories env w = (allCategories env, record_call GetAllCategories w)"

definition getAllItems :: "Env \<Rightarrow> World \<Rightarrow> (thrown + LoyverseItem list) \<times> World" where
  "getAllItems env w = (allItems env, record_call GetAllItems w)"

definition getAllVariants :: "Env \<Rightarrow> World \<Rightarrow> (thrown + LoyverseVariant list) \<times> World" where
  "getAllVariants env w = (allVariants env, record_call GetAllVariants w)"

definition getAllInventoryLevels ::
  "Env \<Rightarrow> World \<Rightarrow> (thrown + LoyverseInventory list) \<times> World" where
  "getAllInventoryLevels env w = (allInventoryLevels env, record_call GetAllInventoryLevels w)"

definition getItemsUpdatedAfter ::
  "Env \<Rightarrow> timestamp \<Rightarrow> World \<Rightarrow> (thrown + LoyverseItem list) \<times> World" where
  "getItemsUpdatedAfter env d w = (itemsUpdatedAfter env d, record_call (GetItemsUpdatedAfter d) w)"

definition getVariantsUpdatedAfter ::
  "Env \<Rightarrow> timestamp \<Rightarrow> World \<Rightarrow> (thrown + LoyverseVariant list) \<times> World" where
  "getVariantsUpdatedAfter env d w =
     (variantsUpdatedAfter env d, record_call (GetVariantsUpdatedAfter d) w)"

section \<open>The store service (supabase-service.ts)\<close>

definition chunkSize :: nat where
  "chunkSize = 100"

definition pageSize :: nat where
  "pageSize = 1000"

text \<open>
  Modelled from the spec: the store behind \<open>client.from('products').upsert(chunk,
  {onConflict: 'sku'})\<close> is not part of the repository; by the spec it is an
  insert-or-replace keyed by SKU. Each row of the chunk, in order, replaces the row with
  its SKU or is added to the table.
\<close>

fun upsert_row :: "SupabaseProduct \<Rightarrow> SupabaseProduct list \<Rightarrow> SupabaseProduct list" where
  "upsert_row p [] = [p]"
| "upsert_row p (q # qs) = (if prod_sku q = prod_sku p then p # qs else q # upsert_row p qs)"

definition store_upsert :: "SupabaseProduct list \<Rightarrow> SupabaseProduct list \<Rightarrow> SupabaseProduct list" where
  "store_upsert chunk tbl = fold upsert_row chunk tbl"

text \<open>
  Modelled from the spec: \<open>client.from('products').delete().in('sku', chunk).select()\<close>
  removes the rows whose SKU is in the chunk and returns them.
\<close>

definition store_deleted :: "string list \<Rightarrow> SupabaseProduct list \<Rightarrow> SupabaseProduct list" where
  "store_deleted chunk tbl = filter (\<lambda>p. prod_sku p \<in> set chunk) tbl"

definition store_delete :: "string list \<Rightarrow> SupabaseProduct list \<Rightarrow> SupabaseProduct list" where
  "store_delete chunk tbl = filter (\<lambda>p. prod_sku p \<notin> set chunk) tbl"

text \<open>The loop of \<open>upsertProducts\<close>: \<open>for (let i = 0; i < validProducts.length; i += chunkSize)\<close>.
  A rejected chunk throws; the chunks written before it stay written.\<close>

function upsertLoop ::
  "Env \<Rightarrow> SupabaseProduct list \<Rightarrow> nat \<Rightarrow> nat \<Rightarrow> World \<Rightarrow> (thrown + nat) \<times> World" where
  "upsertLoop env vs i totalUpserted w =
     (if i < length vs then
        (let chunk = take chunkSize (drop i vs) in
         case upsert_error env (i div chunkSize) of
           Some e \<Rightarrow> (Inl e, w)
         | None \<Rightarrow>
             upsertLoop env vs (i + chunkSize) (totalUpserted + length chunk)
               (w\<lparr>products := store_upsert chunk (products w)\<rparr>))
      else (Inr totalUpserted, w))"
  by pat_completeness auto
termination
  by (relation "measure (\<lambda>(env, vs, i, t, w). length vs - i)") (auto simp: chunkSize_def)

declare upsertLoop.simps [simp del]

definition upsertProducts ::
  "Env \<Rightarrow> ProductWithInventory list \<Rightarrow> World \<Rightarrow> (thrown + nat) \<times> World" where
  "upsertProducts env productsData w =
     upsertLoop env (validProducts productsData) 0 0 (record_call UpsertProducts w)"

text \<open>\<open>getLastSyncTimestamp\<close>: the completion time of the latest successful ledger entry;
  \<open>null\<close> when the query fails or finds no row.\<close>

definition getLastSyncTimestamp :: "Env \<Rightarrow> World \<Rightarrow> timestamp option \<times> World" where
  "getLastSyncTimestamp env w =
     ((if last_sync_error env then None
       else (case filter (\<lambda>l. status l = Success) (sync_logs w) of
               [] \<Rightarrow> None
             | l # ls \<Rightarrow> Some (fold max (map completed_at ls) (completed_at l)))),
      record_call GetLastSyncTimestamp w)"

text \<open>\<open>logSync\<close>: one insert into the ledger; a rejected insert is printed and not
  thrown.\<close>

definition logSync ::
  "Env \<Rightarrow> string \<Rightarrow> nat \<Rightarrow> string list \<Rightarrow> timestamp \<Rightarrow> SyncStatus \<Rightarrow> World \<Rightarrow> World" where
  "logSync env syncType productsSynced errors startedAt st w =
     (let (completedAt, w1) = newDate (record_call (LogSync syncType productsSynced errors startedAt st) w) in
      if log_insert_error env then w1
      else w1\<lparr>sync_logs := sync_logs w1 @
             [\<lparr> sync_type = syncType, products_synced = productsSynced, log_errors = errors,
                started_at = startedAt, completed_at = completedAt, status = st \<rparr>]\<rparr>)"

text \<open>The page loop of \<open>getAllProductSkus\<close>: page \<open>page\<close> is the range
  \<open>page * pageSize .. (page + 1) * pageSize - 1\<close> of the SKU column; the loop goes on
  while a page comes back full.\<close>

function skuPages :: "Env \<Rightarrow> string list \<Rightarrow> nat \<Rightarrow> string list \<Rightarrow> thrown + string list" where
  "skuPages env rows page allSkus =
     (case select_error env page of
        Some e \<Rightarrow> Inl e
      | None \<Rightarrow>
          (let data = take pageSize (drop (page * pageSize) rows) in
           if length data > 0 then
             (if length data = pageSize then skuPages env rows (page + 1) (allSkus @ data)
              else Inr (allSkus @ data))
           else Inr allSkus))"
  by pat_completeness auto
termination
  by (relation "measure (\<lambda>(env, rows, page, allSkus). length rows - page * pageSize)")
     (auto simp: pageSize_def)

declare skuPages.simps [simp del]

definition getAllProductSkus :: "Env \<Rightarrow> World \<Rightarrow> (thrown + string list) \<times> World" where
  "getAllProductSkus env w0 =
     (let w = record_call GetAllProductSkus w0 in
      case (if useCache env then sku_cache w else None) of
        Some cached \<Rightarrow> (Inr cached, w)
      | None \<Rightarrow>
          (case skuPages env (map prod_sku (products w)) 0 [] of
             Inl e \<Rightarrow> (Inl e, w)
           | Inr allSkus \<Rightarrow> (Inr allSkus, w\<lparr>sku_cache := Some allSkus\<rparr>)))"

text \<open>The loop of \<open>deleteProductsBySkus\<close>; the count is the number of rows that the store
  reports as deleted.\<close>

function deleteLoop ::
  "Env \<Rightarrow> string list \<Rightarrow> nat \<Rightarrow> nat \<Rightarrow> World \<Rightarrow> (thrown + nat) \<times> World" where
  "deleteLoop env skus i totalDeleted w =
     (if i < length skus then
        (let chunk = take chunkSize (drop i skus) in
         case delete_error env (i div chunkSize) of
           Some e \<Rightarrow> (Inl e, w)
         | None \<Rightarrow>
             (let deletedCount = length (store_deleted chunk (products w)) in
              deleteLoop env skus (i + chunkSize) (totalDeleted + deletedCount)
                (w\<lparr>products := store_delete chunk (products w)\<rparr>)))
      else (Inr totalDeleted, w))"
  by pat_completeness auto
termination
  by (relation "measure (\<lambda>(env, skus, i, t, w). length skus - i)") (auto simp: chunkSize_def)

declare deleteLoop.simps [simp del]

definition deleteProductsBySkus :: "Env \<Rightarrow> string list \<Rightarrow> World \<Rightarrow> (thrown + nat) \<times> World" where
  "deleteProductsBySkus env skus w0 =
     (let w = record_call (DeleteProductsBySkus skus) w0 in
      if length skus = 0 then (Inr 0, w) else deleteLoop env skus 0 0 w)"

section \<open>The sync service (sync-service.ts)\<close>

text \<open>Step 6: \<open>if (productsData.length > 0) productsSynced = await upsertProducts(productsData)\<close>;
  the value is the new \<open>productsSynced\<close>, which starts at 0.\<close>

definition syncToSupabase ::
  "Env \<Rightarrow> ProductWithInventory list \<Rightarrow> World \<Rightarrow> (thrown + nat) \<times> World" where
  "syncToSupabase env productsData w =
     (if length productsData > 0 then upsertProducts env productsData w else (Inr 0, w))"

text \<open>Step 7, the deletion diff: \<open>loyverseSkus\<close> is the set of the non-empty effective
  SKUs of this pass, and \<open>skusToDelete = existingSkus.filter(sku => !loyverseSkus.has(sku))\<close>.\<close>

definition loyverseSkus :: "ProductWithInventory list \<Rightarrow> string set" where
  "loyverseSkus productsData =
     set (filter (\<lambda>s. s \<noteq> []) (map (\<lambda>p. effectiveSku (variant p)) productsData))"

definition skusToDelete :: "string list \<Rightarrow> ProductWithInventory list \<Rightarrow> string list" where
  "skusToDelete existingSkus productsData =
     filter (\<lambda>s. s \<notin> loyverseSkus productsData) existingSkus"

text \<open>The value is the new \<open>productsDeleted\<close>, which starts at 0.\<close>

definition removeProducts ::
  "Env \<Rightarrow> ProductWithInventory list \<Rightarrow> World \<Rightarrow> (thrown + nat) \<times> World" where
  "removeProducts env productsData w =
     (case getAllProductSkus env w of
        (Inl e, w1) \<Rightarrow> (Inl e, w1)
      | (Inr existingSkus, w1) \<Rightarrow>
          (if length (skusToDelete existingSkus productsData) > 0
           then deleteProductsBySkus env (skusToDelete existingSkus productsData) w1
           else (Inr 0, w1)))"

text \<open>
  The \<open>try\<close> block of \<open>fullSync\<close>. Its value is what the \<open>catch\<close> handler and the code
  after it see: the thrown value if any, the variables \<open>productsSynced\<close> and
  \<open>productsDeleted\<close>, and the world.
\<close>

definition fullSync_try :: "Env \<Rightarrow> timestamp \<Rightarrow> World \<Rightarrow> thrown option \<times> nat \<times> nat \<times> World" where
  "fullSync_try env startedAt w0 =
     (case getAllCategories env w0 of
        (Inl e, w1) \<Rightarrow> (Some e, 0, 0, w1)
      | (Inr categories, w1) \<Rightarrow>
     (case getAllItems env w1 of
        (Inl e, w2) \<Rightarrow> (Some e, 0, 0, w2)
      | (Inr items, w2) \<Rightarrow>
     (case getAllVariants env w2 of
        (Inl e, w3) \<Rightarrow> (Some e, 0, 0, w3)
      | (Inr variants, w3) \<Rightarrow>
     (case getAllInventoryLevels env w3 of
        (Inl e, w4) \<Rightarrow> (Some e, 0, 0, w4)
      | (Inr inventoryLevels, w4) \<Rightarrow>
     (let productsData =
            combineProducts (categoryMap categories) (itemsMap items) inventoryLevels variants in
      case syncToSupabase env productsData w4 of
        (Inl e, w5) \<Rightarrow> (Some e, 0, 0, w5)
      | (Inr productsSynced, w5) \<Rightarrow>
     (case removeProducts env productsData w5 of
        (Inl e, w6) \<Rightarrow> (Some e, productsSynced, 0, w6)
      | (Inr productsDeleted, w6) \<Rightarrow>
          (None, productsSynced, productsDeleted,
           logSync env ''full'' productsSynced [] startedAt Success w6)))))))"

text \<open>The \<open>catch\<close> handler and the code after it; \<open>k\<close> is the sync type.\<close>

definition finishSync ::
  "Env \<Rightarrow> string \<Rightarrow> timestamp \<Rightarrow> thrown option \<times> nat \<times> nat \<times> World \<Rightarrow> SyncResult \<times> World" where
  "finishSync env k startedAt r =
     (case r of (t, productsSynced, productsDeleted, w2) \<Rightarrow>
       (let errors = (case t of None \<Rightarrow> [] | Some e \<Rightarrow> [errorMessage e]);
            w3 = (case t of None \<Rightarrow> w2
                  | Some e \<Rightarrow> logSync env k productsSynced errors startedAt Failed w2);
            (completedAt, w4) = newDate w3
        in (\<lparr> res_products_synced = productsSynced, res_products_deleted = productsDeleted,
              res_errors = errors, res_started_at = startedAt,
              res_completed_at = completedAt \<rparr>, w4)))"

definition fullSync :: "Env \<Rightarrow> World \<Rightarrow> SyncResult \<times> World" where
  "fullSync env w0 =
     (let (startedAt, w1) = newDate w0
      in finishSync env ''full'' startedAt (fullSync_try env startedAt w1))"

text \<open>The repair of the item lookup in \<open>incrementalSync\<close>: the item references of the
  updated variants that the lookup misses, and one fetch of all items when there is any.\<close>

definition itemIdsNeeded :: "(string \<rightharpoonup> LoyverseItem) \<Rightarrow> LoyverseVariant list \<Rightarrow> string set" where
  "itemIdsNeeded imap variants = set (map item_id (filter (\<lambda>v. imap (item_id v) = None) variants))"

definition fetchMissingItems ::
  "Env \<Rightarrow> (string \<rightharpoonup> LoyverseItem) \<Rightarrow> LoyverseVariant list \<Rightarrow> World \<Rightarrow>
   (thrown + (string \<rightharpoonup> LoyverseItem)) \<times> World" where
  "fetchMissingItems env imap variants w =
     (if itemIdsNeeded imap variants \<noteq> {} then
        (case getAllItems env w of
           (Inl e, w1) \<Rightarrow> (Inl e, w1)
         | (Inr items, w1) \<Rightarrow>
             (Inr (fold (\<lambda>i m. if item_ident i \<in> itemIdsNeeded imap variants
                                then m(item_ident i \<mapsto> i) else m) items imap), w1))
      else (Inr imap, w))"

text \<open>The \<open>try\<close> block of \<open>incrementalSync\<close> after the watermark \<open>lastSync\<close> was found.\<close>

definition incrementalSync_try ::
  "Env \<Rightarrow> timestamp \<Rightarrow> timestamp \<Rightarrow> World \<Rightarrow> thrown option \<times> nat \<times> nat \<times> World" where
  "incrementalSync_try env startedAt lastSync w0 =
     (case getAllCategories env w0 of
        (Inl e, w1) \<Rightarrow> (Some e, 0, 0, w1)
      | (Inr categories, w1) \<Rightarrow>
     (case getItemsUpdatedAfter env lastSync w1 of
        (Inl e, w2) \<Rightarrow> (Some e, 0, 0, w2)
      | (Inr items, w2) \<Rightarrow>
     (case getVariantsUpdatedAfter env lastSync w2 of
        (Inl e, w3) \<Rightarrow> (Some e, 0, 0, w3)
      | (Inr variants, w3) \<Rightarrow>
     (case fetchMissingItems env (itemsMap items) variants w3 of
        (Inl e, w4) \<Rightarrow> (Some e, 0, 0, w4)
      | (Inr imap, w4) \<Rightarrow>
     (case getAllInventoryLevels env w4 of
        (Inl e, w5) \<Rightarrow> (Some e, 0, 0, w5)
      | (Inr inventoryLevels, w5) \<Rightarrow>
     (let productsData = combineProducts (categoryMap categories) imap inventoryLevels variants in
      case syncToSupabase env productsData w5 of
        (Inl e, w6) \<Rightarrow> (Some e, 0, 0, w6)
      | (Inr productsSynced, w6) \<Rightarrow>
          (None, productsSynced, 0,
           logSync env ''incremental'' productsSynced [] startedAt Success w6)))))))"

definition incrementalSync :: "Env \<Rightarrow> World \<Rightarrow> SyncResult \<times> World" where
  "incrementalSync env w0 =
     (let (startedAt, w1) = newDate w0;
          (lastSync, w2) = getLastSyncTimestamp env w1
      in case lastSync of
           None \<Rightarrow> fullSync env w2
         | Some t \<Rightarrow> finishSync env ''incremental'' startedAt (incrementalSync_try env startedAt t w2))"

section \<open>Specification vocabulary and example inputs\<close>

text \<open>The option values that are present (defined and not empty), in the order
  option1, option2, option3.\<close>

definition presentOptions :: "LoyverseVariant \<Rightarrow> string list" where
  "presentOptions v =
     concat (map (\<lambda>x. case x of None \<Rightarrow> [] | Some s \<Rightarrow> if s = [] then [] else [s])
       [option1_value v, option2_value v, option3_value v])"

text \<open>The SKUs handed to \<open>deleteProductsBySkus\<close> in a record of calls.\<close>

definition issuedForDeletion :: "Call list \<Rightarrow> string list" where
  "issuedForDeletion cs =
     concat (map (\<lambda>c. case c of DeleteProductsBySkus skus \<Rightarrow> skus | _ \<Rightarrow> []) cs)"

text \<open>The calls of \<open>logSync\<close> in a record of calls.\<close>

definition ledgerCalls :: "Call list \<Rightarrow> Call list" where
  "ledgerCalls cs = filter (\<lambda>c. case c of LogSync k n errs t st \<Rightarrow> True | _ \<Rightarrow> False) cs"

text \<open>The row that a sequence of upserts leaves for the SKU of \<open>q\<close>: the last written
  row with that SKU, or \<open>q\<close> itself when none was written.\<close>

definition lastWrite :: "SupabaseProduct list \<Rightarrow> SupabaseProduct \<Rightarrow> SupabaseProduct" where
  "lastWrite vs q = (case find (\<lambda>p. prod_sku p = prod_sku q) (rev vs) of Some p \<Rightarrow> p | None \<Rightarrow> q)"

text \<open>The world after the four fetches of a full sync.\<close>

definition fetched :: "World \<Rightarrow> World" where
  "fetched w =
     record_call GetAllInventoryLevels (record_call GetAllVariants
       (record_call GetAllItems (record_call GetAllCategories w)))"

definition shirt :: LoyverseItem where
  "shirt = \<lparr> item_ident = ''i1'', item_name = ''Shirt'', description = None,
             category_id = None \<rparr>"

definition variant_red_large :: LoyverseVariant where
  "variant_red_large = \<lparr> variant_id = ''v1'', item_id = ''i1'', sku = Some ''SKU-1'',
     option1_value = Some ''Red'', option2_value = Some ''Large'', option3_value = None,
     default_price = 10 \<rparr>"

definition variant_plain :: LoyverseVariant where
  "variant_plain = \<lparr> variant_id = ''v2'', item_id = ''i1'', sku = Some ''SKU-2'',
     option1_value = None, option2_value = None, option3_value = None,
     default_price = 10 \<rparr>"

definition example_levels :: "LoyverseInventory list" where
  "example_levels =
     [\<lparr> inv_variant_id = ''v1'', store_id = ''s1'', in_stock = 5 / 2, cost = None \<rparr>,
      \<lparr> inv_variant_id = ''v1'', store_id = ''s2'', in_stock = - 1, cost = None \<rparr>]"

definition old_row :: SupabaseProduct where
  "old_row = \<lparr> prod_sku = ''OLD'', prod_name = Some ''Old'', prod_category = None,
     prod_desc = None, prod_price = None, prod_qty = Some 1, prod_image = None \<rparr>"

text \<open>An upstream with one item and two variants, and a store that accepts every
  request; a world whose table holds one row that the upstream does not know and whose
  ledger is empty.\<close>

definition example_env :: Env where
  "example_env = \<lparr> useCache = False, allCategories = Inr [], allItems = Inr [shirt],
     allVariants = Inr [variant_red_large, variant_plain],
     allInventoryLevels = Inr example_levels,
     itemsUpdatedAfter = (\<lambda>t. Inr []), variantsUpdatedAfter = (\<lambda>t. Inr [variant_plain]),
     upsert_error = (\<lambda>k. None), select_error = (\<lambda>k. None), delete_error = (\<lambda>k. None),
     log_insert_error = False, last_sync_error = False \<rparr>"

definition example_world :: World where
  "example_world = \<lparr> products = [old_row], sync_logs = [], sku_cache = None, clock = 0,
     calls = [] \<rparr>"

text \<open>A variant without SKU whose identifier is the empty string, and a table row whose
  SKU is the empty string.\<close>

definition blank_variant :: LoyverseVariant where
  "blank_variant = \<lparr> variant_id = [], item_id = ''i1'', sku = None,
     option1_value = None, option2_value = None, option3_value = None, default_price = 1 \<rparr>"

definition blank_row :: SupabaseProduct where
  "blank_row = \<lparr> prod_sku = [], prod_name = Some ''Blank'', prod_category = None,
     prod_desc = None, prod_price = None, prod_qty = None, prod_image = None \<rparr>"

text \<open>A second variant of the shirt that carries the SKU of the first.\<close>

definition variant_same_sku :: LoyverseVariant where
  "variant_same_sku = \<lparr> variant_id = ''v3'', item_id = ''i1'', sku = Some ''SKU-1'',
     option1_value = Some ''Blue'', option2_value = None, option3_value = None,
     default_price = 12 \<rparr>"

text \<open>Between two worlds nothing was logged: the ledger, the clock and the recorded calls
  of \<open>logSync\<close> are the same.\<close>

definition noLedgerActivity :: "World \<Rightarrow> World \<Rightarrow> bool" where
  "noLedgerActivity w w' \<longleftrightarrow>
     sync_logs w' = sync_logs w \<and> clock w' = clock w \<and>
     ledgerCalls (calls w') = ledgerCalls (calls w)"

lemmas model_defs =
  fullSync_def fullSync_try_def finishSync_def newDate_def getAllCategories_def
  getAllItems_def getAllVariants_def getAllInventoryLevels_def record_call_def
  incrementalSync_def incrementalSync_try_def getItemsUpdatedAfter_def
  getVariantsUpdatedAfter_def getLastSyncTimestamp_def logSync_def syncToSupabase_def
  removeProducts_def upsertProducts_def getAllProductSkus_def deleteProductsBySkus_def
  upsertLoop.simps deleteLoop.simps skuPages.simps chunkSize_def pageSize_def
  store_upsert_def store_delete_def store_deleted_def skusToDelete_def loyverseSkus_def
  validProducts_def toSupabaseProduct_def combineProducts_def combineVariant_def
  effectiveSku_def str_or_def str_or_null_def num_or_def productName_def
  productOptions_def push_if_def categoryMap_def itemsMap_def inventoryMap_def js_Map_def
  List.map_filter_def fetchMissingItems_def itemIdsNeeded_def errorMessage_def
  fetched_def

lemmas example_defs =
  shirt_def variant_red_large_def variant_plain_def example_levels_def old_row_def
  example_env_def example_world_def

section \<open>Name composition\<close>

lemma productOptions_present: "productOptions v = presentOptions v"
  by (simp add: productOptions_def presentOptions_def push_if_def split: option.splits)

text \<open>
  C8. The composed name is the item name, followed, when at least one option value is
  present, by a space and the present option values in the order option1, option2,
  option3, joined by a comma and a space, in parentheses. For the item "Shirt" with
  option1 "Red", option2 "Large" and no option3 it is "Shirt (Red, Large)"; with no
  option it is "Shirt", with no parentheses.
\<close>

theorem C8_name_composition:
  "productName i v =
     (if presentOptions v = [] then item_name i
      else item_name i @ '' ('' @ js_join '', '' (presentOptions v) @ '')'')
   \<and> productName shirt variant_red_large = ''Shirt (Red, Large)''
   \<and> productName shirt variant_plain = ''Shirt''"
  by (simp add: productName_def productOptions_present presentOptions_def
      shirt_def variant_red_large_def variant_plain_def)

theorem C8_name_composition_witness:
  "productName shirt (variant_red_large\<lparr>option3_value := Some ''Slim''\<rparr>)
     = ''Shirt (Red, Large, Slim)''"
  using C8_name_composition [of shirt "variant_red_large\<lparr>option3_value := Some ''Slim''\<rparr>"]
  by (simp add: presentOptions_def shirt_def variant_red_large_def)

section \<open>Inventory aggregation\<close>








section \<open>Properties of the store service\<close>

subsection \<open>The loops\<close>

lemma upsertLoop_frame:
  "calls (snd (upsertLoop env vs i t w)) = calls w \<and>
   sync_logs (snd (upsertLoop env vs i t w)) = sync_logs w \<and>
   clock (snd (upsertLoop env vs i t w)) = clock w \<and>
   sku_cache (snd (upsertLoop env vs i t w)) = sku_cache w"
proof (induction env vs i t w rule: upsertLoop.induct)
  case (1 env vs i t w)
  show ?case
    by (subst (1 2 3 4) upsertLoop.simps) (use 1 in \<open>auto split: option.splits simp: Let_def\<close>)
qed

lemma store_upsert_append: "store_upsert (xs @ ys) tbl = store_upsert ys (store_upsert xs tbl)"
  by (simp add: store_upsert_def)

lemma upsertLoop_Inr:
  "upsertLoop env vs i t w = (Inr n, w') \<Longrightarrow>
     products w' = store_upsert (drop i vs) (products w) \<and> n = t + length (drop i vs)"
proof (induction env vs i t w rule: upsertLoop.induct)
  case (1 env vs i t w)
  show ?case
  proof (cases "i < length vs")
    case False
    with "1.prems" show ?thesis by (simp add: upsertLoop.simps store_upsert_def)
  next
    case True
    from True "1.prems" have ne: "upsert_error env (i div chunkSize) = None"
      by (subst (asm) upsertLoop.simps) (auto split: option.splits simp: Let_def)
    from True ne "1.prems" have rec:
      "upsertLoop env vs (i + chunkSize) (t + length (take chunkSize (drop i vs)))
         (w\<lparr>products := store_upsert (take chunkSize (drop i vs)) (products w)\<rparr>) = (Inr n, w')"
      by (subst (asm) upsertLoop.simps) (simp add: Let_def)
    from "1.IH"[OF True refl ne rec]
    have "products w' = store_upsert (drop (i + chunkSize) vs) (store_upsert (take chunkSize (drop i vs)) (products w))"
      and n: "n = t + length (take chunkSize (drop i vs)) + length (drop (i + chunkSize) vs)"
      by simp_all
    moreover have "drop i vs = take chunkSize (drop i vs) @ drop (i + chunkSize) vs"
      by (metis append_take_drop_id drop_drop add.commute)
    ultimately show ?thesis
      by (metis store_upsert_append length_append add.assoc)
  qed
qed


lemma upsertLoop_outcome:
  "fst (upsertLoop env vs i t w) = fst (upsertLoop env vs i t w2)"
proof (induction env vs i t w arbitrary: w2 rule: upsertLoop.induct)
  case (1 env vs i t w)
  show ?case
  proof (cases "i < length vs")
    case False
    then show ?thesis by (simp add: upsertLoop.simps)
  next
    case True
    show ?thesis
    proof (cases "upsert_error env (i div chunkSize)")
      case (Some e)
      with True show ?thesis by (simp add: upsertLoop.simps [of env vs i] Let_def)
    next
      case None
      from "1.IH"[OF True refl None]
      show ?thesis using True None by (simp add: upsertLoop.simps [of env vs i] Let_def)
    qed
  qed
qed

lemma store_delete_append:
  "store_delete (xs @ ys) tbl = store_delete ys (store_delete xs tbl)"
  by (auto simp: store_delete_def intro: filter_cong)

lemma deleteLoop_frame:
  "calls (snd (deleteLoop env skus i t w)) = calls w \<and>
   sync_logs (snd (deleteLoop env skus i t w)) = sync_logs w \<and>
   clock (snd (deleteLoop env skus i t w)) = clock w \<and>
   sku_cache (snd (deleteLoop env skus i t w)) = sku_cache w"
proof (induction env skus i t w rule: deleteLoop.induct)
  case (1 env skus i t w)
  show ?case
    by (subst (1 2 3 4) deleteLoop.simps) (use 1 in \<open>auto split: option.splits simp: Let_def\<close>)
qed

lemma deleteLoop_Inr:
  "deleteLoop env skus i t w = (Inr n, w') \<Longrightarrow>
     products w' = store_delete (drop i skus) (products w)"
proof (induction env skus i t w rule: deleteLoop.induct)
  case (1 env skus i t w)
  show ?case
  proof (cases "i < length skus")
    case False
    with "1.prems" show ?thesis by (simp add: deleteLoop.simps store_delete_def)
  next
    case True
    from True "1.prems" have ne: "delete_error env (i div chunkSize) = None"
      by (subst (asm) deleteLoop.simps) (auto split: option.splits simp: Let_def)
    from True ne "1.prems" have rec:
      "deleteLoop env skus (i + chunkSize)
         (t + length (store_deleted (take chunkSize (drop i skus)) (products w)))
         (w\<lparr>products := store_delete (take chunkSize (drop i skus)) (products w)\<rparr>) = (Inr n, w')"
      by (subst (asm) deleteLoop.simps) (simp add: Let_def)
    from "1.IH"[OF True refl ne refl rec]
    have "products w' = store_delete (drop (i + chunkSize) skus)
        (store_delete (take chunkSize (drop i skus)) (products w))"
      by simp
    moreover have "drop i skus = take chunkSize (drop i skus) @ drop (i + chunkSize) skus"
      by (metis append_take_drop_id drop_drop add.commute)
    ultimately show ?thesis
      by (metis store_delete_append)
  qed
qed

lemma store_delete_absent:
  "\<forall>p \<in> set tbl. prod_sku p \<notin> set chunk \<Longrightarrow> store_delete chunk tbl = tbl"
  by (simp add: store_delete_def)

lemma deleteLoop_absent:
  "\<forall>p \<in> set (products w). prod_sku p \<notin> set skus \<Longrightarrow>
     products (snd (deleteLoop env skus i t w)) = products w"
proof (induction env skus i t w rule: deleteLoop.induct)
  case (1 env skus i t w)
  show ?case
  proof (cases "i < length skus")
    case False
    then show ?thesis by (simp add: deleteLoop.simps)
  next
    case True
    have sub: "set (take chunkSize (drop i skus)) \<subseteq> set skus"
      by (meson set_take_subset set_drop_subset subset_trans)
    with "1.prems" have same: "store_delete (take chunkSize (drop i skus)) (products w) = products w"
      by (intro store_delete_absent) blast
    show ?thesis
    proof (cases "delete_error env (i div chunkSize)")
      case (Some e)
      with True show ?thesis by (simp add: deleteLoop.simps [of env skus i] Let_def)
    next
      case None
      have "products (snd (deleteLoop env skus (i + chunkSize)
           (t + length (store_deleted (take chunkSize (drop i skus)) (products w)))
           (w\<lparr>products := store_delete (take chunkSize (drop i skus)) (products w)\<rparr>)))
         = products (w\<lparr>products := store_delete (take chunkSize (drop i skus)) (products w)\<rparr>)"
        by (rule "1.IH"[OF True refl None refl]) (use "1.prems" same in simp)
      with True None same show ?thesis
        by (simp add: deleteLoop.simps [of env skus i] Let_def)
    qed
  qed
qed

lemma pageSize_pos: "0 < pageSize"
  by (simp add: pageSize_def)

lemma skuPages_Inr:
  "skuPages env rows page acc = Inr r \<Longrightarrow> r = acc @ drop (page * pageSize) rows"
proof (induction env rows page acc rule: skuPages.induct)
  case (1 env rows page acc)
  let ?d = "drop (page * pageSize) rows"
  let ?data = "take pageSize ?d"
  from "1.prems" have ne: "select_error env page = None"
    by (subst (asm) skuPages.simps) (auto split: option.splits)
  have unfold: "skuPages env rows page acc =
      (if length ?data > 0 then
         (if length ?data = pageSize then skuPages env rows (page + 1) (acc @ ?data)
          else Inr (acc @ ?data))
       else Inr acc)"
    by (subst skuPages.simps) (simp only: ne option.case Let_def)
  show ?case
  proof (cases "length ?data > 0")
    case False
    then have "?d = []" using pageSize_pos by auto
    moreover from "1.prems" have "r = acc"
      by (simp only: unfold False if_False sum.inject)
    ultimately show ?thesis by simp
  next
    case True
    show ?thesis
    proof (cases "length ?data = pageSize")
      case False
      then have "?data = ?d" by (auto simp: min_def split: if_splits)
      moreover from "1.prems" have "r = acc @ ?data"
        by (simp only: unfold True False if_True if_False sum.inject)
      ultimately show ?thesis by simp
    next
      case full: True
      from "1.prems" have rec: "skuPages env rows (page + 1) (acc @ ?data) = Inr r"
        by (simp only: unfold full pageSize_pos if_True simp_thms)
      from "1.IH"[OF ne refl True full rec]
      have "r = (acc @ ?data) @ drop ((page + 1) * pageSize) rows" .
      moreover have "?d = ?data @ drop ((page + 1) * pageSize) rows"
        by (metis append_take_drop_id drop_drop add.commute mult.commute mult_Suc_right Suc_eq_plus1)
      ultimately show ?thesis by simp
    qed
  qed
qed

subsection \<open>The table under upserts\<close>

lemma keys_upsert_row:
  "prod_sku ` set (upsert_row p tbl) = insert (prod_sku p) (prod_sku ` set tbl)"
  by (induction tbl) auto

lemma distinct_upsert_row:
  "distinct (map prod_sku tbl) \<Longrightarrow> distinct (map prod_sku (upsert_row p tbl))"
proof (induction tbl)
  case Nil
  show ?case by simp
next
  case (Cons q qs)
  have "prod_sku q \<noteq> prod_sku p \<Longrightarrow> prod_sku q \<notin> prod_sku ` set (upsert_row p qs)"
    using Cons.prems by (simp add: keys_upsert_row)
  with Cons show ?case by auto
qed

lemma find_upsert_row:
  "find (\<lambda>q. prod_sku q = k) (upsert_row p tbl) =
     (if prod_sku p = k then Some p else find (\<lambda>q. prod_sku q = k) tbl)"
  by (induction tbl) auto

lemma store_upsert_snoc: "store_upsert (xs @ [x]) tbl = upsert_row x (store_upsert xs tbl)"
  by (simp add: store_upsert_def)

lemma keys_store_upsert:
  "prod_sku ` set (store_upsert vs tbl) = prod_sku ` set vs \<union> prod_sku ` set tbl"
proof (induction vs rule: rev_induct)
  case Nil
  show ?case by (simp add: store_upsert_def)
next
  case (snoc x xs)
  show ?case
    unfolding store_upsert_snoc keys_upsert_row snoc.IH by auto
qed

lemma distinct_store_upsert:
  "distinct (map prod_sku tbl) \<Longrightarrow> distinct (map prod_sku (store_upsert vs tbl))"
proof (induction vs rule: rev_induct)
  case Nil
  then show ?case by (simp add: store_upsert_def)
next
  case (snoc x xs)
  then show ?case by (simp add: store_upsert_snoc distinct_upsert_row)
qed

lemma find_store_upsert:
  "find (\<lambda>q. prod_sku q = k) (store_upsert vs tbl) =
     (case find (\<lambda>q. prod_sku q = k) (rev vs) of
        Some p \<Rightarrow> Some p
      | None \<Rightarrow> find (\<lambda>q. prod_sku q = k) tbl)"
proof (induction vs rule: rev_induct)
  case Nil
  show ?case by (simp add: store_upsert_def)
next
  case (snoc x xs)
  show ?case by (simp add: store_upsert_snoc find_upsert_row snoc.IH)
qed

lemma find_key_Some: "find (\<lambda>q. prod_sku q = k) xs = Some p \<Longrightarrow> prod_sku p = k \<and> p \<in> set xs"
  by (induction xs) (auto split: if_splits)

lemma find_distinct_member:
  "distinct (map prod_sku tbl) \<Longrightarrow> q \<in> set tbl \<Longrightarrow> find (\<lambda>x. prod_sku x = prod_sku q) tbl = Some q"
  by (induction tbl) (auto simp: image_iff)

lemma upsert_row_present:
  "distinct (map prod_sku tbl) \<Longrightarrow> prod_sku p \<in> prod_sku ` set tbl \<Longrightarrow>
     upsert_row p tbl = map (\<lambda>q. if prod_sku q = prod_sku p then p else q) tbl"
proof (induction tbl)
  case Nil
  then show ?case by simp
next
  case (Cons q qs)
  show ?case
  proof (cases "prod_sku q = prod_sku p")
    case True
    with Cons.prems have "\<forall>x \<in> set qs. prod_sku x \<noteq> prod_sku p" by (auto simp: image_iff)
    then have "map (\<lambda>q. if prod_sku q = prod_sku p then p else q) qs = qs"
      by (induction qs) auto
    with True show ?thesis by simp
  next
    case False
    with Cons show ?thesis by auto
  qed
qed

lemma lastWrite_key: "prod_sku (lastWrite vs q) = prod_sku q"
  by (auto simp: lastWrite_def dest: find_key_Some split: option.splits)

lemma store_upsert_present:
  "distinct (map prod_sku tbl) \<Longrightarrow> prod_sku ` set vs \<subseteq> prod_sku ` set tbl \<Longrightarrow>
     store_upsert vs tbl = map (lastWrite vs) tbl"
proof (induction vs rule: rev_induct)
  case Nil
  show ?case by (simp add: store_upsert_def lastWrite_def)
next
  case (snoc x xs)
  then have IH: "store_upsert xs tbl = map (lastWrite xs) tbl" by simp
  have keys: "map prod_sku (map (lastWrite xs) tbl) = map prod_sku tbl"
    by (simp add: lastWrite_key comp_def)
  have "upsert_row x (map (lastWrite xs) tbl)
      = map (\<lambda>q. if prod_sku q = prod_sku x then x else q) (map (lastWrite xs) tbl)"
  proof (rule upsert_row_present)
    show "distinct (map prod_sku (map (lastWrite xs) tbl))"
      using snoc.prems(1) by (simp only: keys)
    have "prod_sku ` set (map (lastWrite xs) tbl) = prod_sku ` set tbl"
      by (metis keys set_map)
    with snoc.prems(2) show "prod_sku x \<in> prod_sku ` set (map (lastWrite xs) tbl)"
      by auto
  qed
  also have "\<dots> = map (lastWrite (xs @ [x])) tbl"
    by (auto simp: lastWrite_def lastWrite_key [unfolded lastWrite_def] split: option.splits dest: find_key_Some)
  finally show ?case by (simp add: store_upsert_snoc IH)
qed

lemma store_upsert_again:
  assumes d: "distinct (map prod_sku tbl)"
    and D: "set D \<inter> prod_sku ` set vs = {}"
  shows "store_upsert vs (store_delete D (store_upsert vs tbl)) = store_delete D (store_upsert vs tbl)"
proof -
  let ?U = "store_upsert vs tbl"
  let ?T = "store_delete D ?U"
  have dU: "distinct (map prod_sku ?U)" using d by (rule distinct_store_upsert)
  have dT: "distinct (map prod_sku ?T)"
    using dU by (simp add: store_delete_def distinct_map_filter)
  have sub: "prod_sku ` set vs \<subseteq> prod_sku ` set ?T"
  proof
    fix k assume k: "k \<in> prod_sku ` set vs"
    then have "k \<in> prod_sku ` set ?U" by (simp add: keys_store_upsert)
    then obtain q where "q \<in> set ?U" "prod_sku q = k" by auto
    moreover from k D have "k \<notin> set D" by auto
    ultimately have "q \<in> set ?T" by (simp add: store_delete_def)
    with \<open>prod_sku q = k\<close> show "k \<in> prod_sku ` set ?T" by force
  qed
  have "map (lastWrite vs) ?T = ?T"
  proof (rule map_idI)
    fix q assume q: "q \<in> set ?T"
    then have qU: "q \<in> set ?U" by (simp add: store_delete_def)
    show "lastWrite vs q = q"
    proof (cases "find (\<lambda>p. prod_sku p = prod_sku q) (rev vs)")
      case None
      then show ?thesis by (simp add: lastWrite_def)
    next
      case (Some p)
      then have "find (\<lambda>x. prod_sku x = prod_sku q) ?U = Some p"
        by (simp add: find_store_upsert)
      moreover have "find (\<lambda>x. prod_sku x = prod_sku q) ?U = Some q"
        using dU qU by (rule find_distinct_member)
      ultimately show ?thesis using Some by (simp add: lastWrite_def)
    qed
  qed
  with store_upsert_present [OF dT sub] show ?thesis by simp
qed

section \<open>Properties of the sync service\<close>

lemma issuedForDeletion_append [simp]:
  "issuedForDeletion (xs @ ys) = issuedForDeletion xs @ issuedForDeletion ys"
  by (simp add: issuedForDeletion_def)

lemma issuedForDeletion_Cons [simp]:
  "issuedForDeletion [] = []"
  "issuedForDeletion (c # cs) =
     (case c of DeleteProductsBySkus skus \<Rightarrow> skus | _ \<Rightarrow> []) @ issuedForDeletion cs"
  by (simp_all add: issuedForDeletion_def)

lemma ledgerCalls_append [simp]: "ledgerCalls (xs @ ys) = ledgerCalls xs @ ledgerCalls ys"
  by (simp add: ledgerCalls_def)

lemma ledgerCalls_Cons [simp]:
  "ledgerCalls [] = []"
  "ledgerCalls (c # cs) = (case c of LogSync k n errs t st \<Rightarrow> [c] | _ \<Rightarrow> []) @ ledgerCalls cs"
  by (simp_all add: ledgerCalls_def split: Call.splits)

lemma record_call_simps [simp]:
  "calls (record_call c w) = calls w @ [c]"
  "products (record_call c w) = products w"
  "sync_logs (record_call c w) = sync_logs w"
  "clock (record_call c w) = clock w"
  "sku_cache (record_call c w) = sku_cache w"
  by (simp_all add: record_call_def)

subsection \<open>upsertProducts\<close>

lemma upsertProducts_frame:
  "calls (snd (upsertProducts env pd w)) = calls w @ [UpsertProducts] \<and>
   sync_logs (snd (upsertProducts env pd w)) = sync_logs w \<and>
   clock (snd (upsertProducts env pd w)) = clock w \<and>
   sku_cache (snd (upsertProducts env pd w)) = sku_cache w"
  by (simp add: upsertProducts_def upsertLoop_frame)

lemma upsertProducts_Inr:
  "upsertProducts env pd w = (Inr n, w') \<Longrightarrow>
     products w' = store_upsert (validProducts pd) (products w) \<and> n = length (validProducts pd)"
  unfolding upsertProducts_def by (drule upsertLoop_Inr) simp

lemma upsertProducts_outcome:
  "fst (upsertProducts env pd w) = fst (upsertProducts env pd w2)"
  unfolding upsertProducts_def by (rule upsertLoop_outcome)

lemma syncToSupabase_frame:
  "calls (snd (syncToSupabase env pd w)) = calls w @ (if pd = [] then [] else [UpsertProducts]) \<and>
   sync_logs (snd (syncToSupabase env pd w)) = sync_logs w \<and>
   clock (snd (syncToSupabase env pd w)) = clock w \<and>
   sku_cache (snd (syncToSupabase env pd w)) = sku_cache w"
  by (simp add: syncToSupabase_def upsertProducts_frame)

lemma syncToSupabase_Inr:
  "syncToSupabase env pd w = (Inr n, w') \<Longrightarrow>
     products w' = store_upsert (validProducts pd) (products w) \<and> n = length (validProducts pd)"
  by (auto simp: syncToSupabase_def validProducts_def store_upsert_def
      dest: upsertProducts_Inr split: if_splits)

lemma syncToSupabase_outcome:
  "fst (syncToSupabase env pd w) = fst (syncToSupabase env pd w2)"
  by (simp add: syncToSupabase_def upsertProducts_outcome)

subsection \<open>getAllProductSkus\<close>

lemma getAllProductSkus_frame:
  "calls (snd (getAllProductSkus env w)) = calls w @ [GetAllProductSkus] \<and>
   products (snd (getAllProductSkus env w)) = products w \<and>
   sync_logs (snd (getAllProductSkus env w)) = sync_logs w \<and>
   clock (snd (getAllProductSkus env w)) = clock w"
  by (simp add: getAllProductSkus_def Let_def split: option.splits sum.splits)

lemma getAllProductSkus_Inr:
  "getAllProductSkus env w = (Inr existingSkus, w1) \<Longrightarrow>
     sku_cache w1 = Some existingSkus \<and>
     (if useCache env \<and> sku_cache w \<noteq> None then sku_cache w = Some existingSkus
      else existingSkus = map prod_sku (products w))"
  by (auto simp: getAllProductSkus_def Let_def split: option.splits sum.splits if_splits
      dest: skuPages_Inr)

lemma getAllProductSkus_cached:
  "useCache env \<Longrightarrow> sku_cache w = Some cached \<Longrightarrow>
     getAllProductSkus env w = (Inr cached, record_call GetAllProductSkus w)"
  by (simp add: getAllProductSkus_def Let_def)

subsection \<open>deleteProductsBySkus\<close>

lemma deleteProductsBySkus_frame:
  "calls (snd (deleteProductsBySkus env skus w)) = calls w @ [DeleteProductsBySkus skus] \<and>
   sync_logs (snd (deleteProductsBySkus env skus w)) = sync_logs w \<and>
   clock (snd (deleteProductsBySkus env skus w)) = clock w \<and>
   sku_cache (snd (deleteProductsBySkus env skus w)) = sku_cache w"
  by (simp add: deleteProductsBySkus_def Let_def deleteLoop_frame)

lemma deleteProductsBySkus_Inr:
  "deleteProductsBySkus env skus w = (Inr n, w') \<Longrightarrow> products w' = store_delete skus (products w)"
  by (auto simp: deleteProductsBySkus_def Let_def store_delete_def split: if_splits
      dest!: deleteLoop_Inr)

lemma deleteProductsBySkus_absent:
  "\<forall>p \<in> set (products w). prod_sku p \<notin> set skus \<Longrightarrow>
     products (snd (deleteProductsBySkus env skus w)) = products w"
  by (simp add: deleteProductsBySkus_def Let_def deleteLoop_absent)

subsection \<open>logSync\<close>

lemma logSync_simps:
  "calls (logSync env k n errs t st w) = calls w @ [LogSync k n errs t st]"
  "products (logSync env k n errs t st w) = products w"
  "clock (logSync env k n errs t st w) = Suc (clock w)"
  "sku_cache (logSync env k n errs t st w) = sku_cache w"
  "sync_logs (logSync env k n errs t st w) =
     (if log_insert_error env then sync_logs w
      else sync_logs w @ [\<lparr> sync_type = k, products_synced = n, log_errors = errs,
             started_at = t, completed_at = clock w, status = st \<rparr>])"
  by (simp_all add: logSync_def newDate_def)

subsection \<open>The deletion step\<close>

lemma set_skusToDelete:
  "set (skusToDelete existingSkus pd) =
     set existingSkus - {s \<in> (\<lambda>p. effectiveSku (variant p)) ` set pd. s \<noteq> []}"
  by (auto simp: skusToDelete_def loyverseSkus_def)

lemma removeProducts_frame:
  "sync_logs (snd (removeProducts env pd w)) = sync_logs w \<and>
   clock (snd (removeProducts env pd w)) = clock w"
  using getAllProductSkus_frame [of env w]
  by (auto simp: removeProducts_def deleteProductsBySkus_frame split: prod.splits sum.splits)

lemma removeProducts_calls:
  "calls (snd (removeProducts env pd w)) =
     calls w @ GetAllProductSkus #
       (case fst (getAllProductSkus env w) of
          Inl e \<Rightarrow> []
        | Inr existingSkus \<Rightarrow>
            if skusToDelete existingSkus pd = [] then []
            else [DeleteProductsBySkus (skusToDelete existingSkus pd)])"
  using getAllProductSkus_frame [of env w]
  by (auto simp: removeProducts_def deleteProductsBySkus_frame split: prod.splits sum.splits)

lemma removeProducts_issued:
  "issuedForDeletion (calls (snd (removeProducts env pd w))) =
     issuedForDeletion (calls w) @
       (case fst (getAllProductSkus env w) of
          Inl e \<Rightarrow> []
        | Inr existingSkus \<Rightarrow> skusToDelete existingSkus pd)"
  by (simp add: removeProducts_calls split: sum.splits)

lemma removeProducts_Inr:
  assumes "removeProducts env pd w = (Inr d, w')"
  shows "\<exists>existingSkus w1. getAllProductSkus env w = (Inr existingSkus, w1) \<and>
       products w' = store_delete (skusToDelete existingSkus pd) (products w) \<and>
       sku_cache w' = Some existingSkus"
proof -
  obtain r w1 where g: "getAllProductSkus env w = (r, w1)" by (cases "getAllProductSkus env w")
  from assms g obtain existingSkus where r: "r = Inr existingSkus"
    by (cases r) (auto simp: removeProducts_def)
  from g have pw1: "products w1 = products w"
    using getAllProductSkus_frame [of env w] by simp
  from g r have c1: "sku_cache w1 = Some existingSkus"
    by (auto dest: getAllProductSkus_Inr)
  let ?D = "skusToDelete existingSkus pd"
  show ?thesis
  proof (cases "?D = []")
    case True
    with assms g r have "w' = w1" by (simp add: removeProducts_def)
    with True pw1 c1 g r show ?thesis by (simp add: store_delete_def)
  next
    case False
    with assms g r have del: "deleteProductsBySkus env ?D w1 = (Inr d, w')"
      by (simp add: removeProducts_def)
    then have "products w' = store_delete ?D (products w1)"
      by (rule deleteProductsBySkus_Inr)
    moreover have "sku_cache w' = sku_cache w1"
      using deleteProductsBySkus_frame [of env ?D w1] del by simp
    ultimately show ?thesis using pw1 c1 g r by simp
  qed
qed

subsection \<open>fullSync\<close>

lemma fetched_simps [simp]:
  "calls (fetched w) =
     calls w @ [GetAllCategories, GetAllItems, GetAllVariants, GetAllInventoryLevels]"
  "products (fetched w) = products w"
  "sync_logs (fetched w) = sync_logs w"
  "clock (fetched w) = clock w"
  "sku_cache (fetched w) = sku_cache w"
  by (simp_all add: fetched_def)

lemma fullSync_try_fetched:
  assumes "allCategories env = Inr categories" and "allItems env = Inr items"
    and "allVariants env = Inr variants" and "allInventoryLevels env = Inr inventoryLevels"
  shows "fullSync_try env t w =
     (case syncToSupabase env
             (combineProducts (categoryMap categories) (itemsMap items) inventoryLevels variants)
             (fetched w) of
        (Inl e, w5) \<Rightarrow> (Some e, 0, 0, w5)
      | (Inr n, w5) \<Rightarrow>
          (case removeProducts env
                  (combineProducts (categoryMap categories) (itemsMap items) inventoryLevels variants)
                  w5 of
             (Inl e, w6) \<Rightarrow> (Some e, n, 0, w6)
           | (Inr d, w6) \<Rightarrow> (None, n, d, logSync env ''full'' n [] t Success w6)))"
  using assms
  by (simp add: fullSync_try_def getAllCategories_def getAllItems_def getAllVariants_def
      getAllInventoryLevels_def fetched_def Let_def)

lemma fullSync_unfold:
  "fullSync env w =
     finishSync env ''full'' (clock w) (fullSync_try env (clock w) (snd (newDate w)))"
  by (simp add: fullSync_def newDate_def)

lemma newDate_simps [simp]:
  "calls (snd (newDate w)) = calls w"
  "products (snd (newDate w)) = products w"
  "sync_logs (snd (newDate w)) = sync_logs w"
  "clock (snd (newDate w)) = Suc (clock w)"
  "sku_cache (snd (newDate w)) = sku_cache w"
  "fst (newDate w) = clock w"
  by (simp_all add: newDate_def)

lemma finishSync_world:
  "calls (snd (finishSync env k t (r, n, d, w2))) =
     calls w2 @ (case r of None \<Rightarrow> [] | Some e \<Rightarrow> [LogSync k n [errorMessage e] t Failed])"
  "products (snd (finishSync env k t (r, n, d, w2))) = products w2"
  "sku_cache (snd (finishSync env k t (r, n, d, w2))) = sku_cache w2"
  "sync_logs (snd (finishSync env k t (r, n, d, w2))) =
     (case r of None \<Rightarrow> sync_logs w2
      | Some e \<Rightarrow> sync_logs (logSync env k n [errorMessage e] t Failed w2))"
  "clock (snd (finishSync env k t (r, n, d, w2))) =
     (case r of None \<Rightarrow> Suc (clock w2) | Some e \<Rightarrow> Suc (Suc (clock w2)))"
  by (simp_all add: finishSync_def Let_def newDate_def logSync_simps split: option.splits)

lemma finishSync_result:
  "fst (finishSync env k t (r, n, d, w2)) =
     \<lparr> res_products_synced = n, res_products_deleted = d,
       res_errors = (case r of None \<Rightarrow> [] | Some e \<Rightarrow> [errorMessage e]),
       res_started_at = t,
       res_completed_at = (case r of None \<Rightarrow> clock w2 | Some e \<Rightarrow> Suc (clock w2)) \<rparr>"
  by (simp add: finishSync_def Let_def newDate_def logSync_simps split: option.splits)

section \<open>The deletion set\<close>

text \<open>
  C1 (as amended). In every full sync pass that reaches the deletion diff, the SKUs handed
  to the store for deletion are exactly \<open>existingSkus - currentPassSkus\<close>, where
  \<open>existingSkus\<close> is the list that the SKU enumeration returned after the upsert step
  (the SKUs of the table, or the cached list when caching is enabled and a cached list
  exists) and \<open>currentPassSkus\<close> is the set of the non-empty effective SKUs of the
  products prepared in this pass. No SKU of \<open>currentPassSkus\<close> is deleted, whether it
  is persisted or not.
\<close>

theorem C1_deletion_set:
  assumes "allCategories env = Inr categories" and "allItems env = Inr items"
    and "allVariants env = Inr variants" and "allInventoryLevels env = Inr inventoryLevels"
    and pd: "productsData =
       combineProducts (categoryMap categories) (itemsMap items) inventoryLevels variants"
    and up: "fst (syncToSupabase env productsData (fetched (snd (newDate w)))) = Inr n"
    and ex: "fst (getAllProductSkus env
                (snd (syncToSupabase env productsData (fetched (snd (newDate w)))))) = Inr existingSkus"
  shows "issuedForDeletion (calls (snd (fullSync env w)))
           = issuedForDeletion (calls w) @ skusToDelete existingSkus productsData
     \<and> set (skusToDelete existingSkus productsData)
           = set existingSkus - {s \<in> (\<lambda>p. effectiveSku (variant p)) ` set productsData. s \<noteq> []}
     \<and> set (skusToDelete existingSkus productsData)
           \<inter> {s \<in> (\<lambda>p. effectiveSku (variant p)) ` set productsData. s \<noteq> []} = {}
     \<and> (if useCache env \<and> sku_cache w \<noteq> None then sku_cache w = Some existingSkus
         else existingSkus = map prod_sku (store_upsert (validProducts productsData) (products w)))"
proof -
  let ?w4 = "fetched (snd (newDate w))"
  obtain w5 where s5: "syncToSupabase env productsData ?w4 = (Inr n, w5)"
    using up by (cases "syncToSupabase env productsData ?w4") auto
  obtain w6 where g6: "getAllProductSkus env w5 = (Inr existingSkus, w6)"
    using ex s5 by (cases "getAllProductSkus env w5") auto
  have c5: "issuedForDeletion (calls w5) = issuedForDeletion (calls w)"
    using syncToSupabase_frame [of env productsData ?w4] s5 by simp
  have k5: "sku_cache w5 = sku_cache w"
    using syncToSupabase_frame [of env productsData ?w4] s5 by simp
  have p5: "products w5 = store_upsert (validProducts productsData) (products w)"
    using syncToSupabase_Inr [OF s5] by simp
  have rp: "issuedForDeletion (calls (snd (removeProducts env productsData w5)))
      = issuedForDeletion (calls w) @ skusToDelete existingSkus productsData"
    by (simp add: removeProducts_issued g6 c5)
  have "issuedForDeletion (calls (snd (fullSync env w)))
      = issuedForDeletion (calls (snd (removeProducts env productsData w5)))"
    unfolding fullSync_unfold fullSync_try_fetched [OF assms(1-4)] pd [symmetric] s5
    by (cases "removeProducts env productsData w5")
       (auto simp: finishSync_world logSync_simps split: sum.splits)
  with rp have one: "issuedForDeletion (calls (snd (fullSync env w)))
      = issuedForDeletion (calls w) @ skusToDelete existingSkus productsData"
    by simp
  have three: "if useCache env \<and> sku_cache w \<noteq> None then sku_cache w = Some existingSkus
      else existingSkus = map prod_sku (store_upsert (validProducts productsData) (products w))"
    using getAllProductSkus_Inr [OF g6] by (auto simp: k5 p5 split: if_splits)
  from one set_skusToDelete three show ?thesis by blast
qed

theorem C1_deletion_set_witness:
  "issuedForDeletion (calls (snd (fullSync example_env example_world))) = [''OLD'']
   \<and> skusToDelete [''OLD'', ''SKU-1'', ''SKU-2'']
        (combineProducts (categoryMap []) (itemsMap [shirt]) example_levels
           [variant_red_large, variant_plain]) = [''OLD'']"
proof -
  let ?pd = "combineProducts (categoryMap []) (itemsMap [shirt]) example_levels
           [variant_red_large, variant_plain]"
  have h1: "allCategories example_env = Inr []" and h2: "allItems example_env = Inr [shirt]"
    and h3: "allVariants example_env = Inr [variant_red_large, variant_plain]"
    and h4: "allInventoryLevels example_env = Inr example_levels"
    by (simp_all add: example_env_def)
  have h5: "fst (syncToSupabase example_env ?pd (fetched (snd (newDate example_world)))) = Inr 2"
    by (simp add: model_defs example_defs)
  have h6: "fst (getAllProductSkus example_env
      (snd (syncToSupabase example_env ?pd (fetched (snd (newDate example_world))))))
        = Inr [''OLD'', ''SKU-1'', ''SKU-2'']"
    by (simp add: model_defs example_defs)
  have d: "skusToDelete [''OLD'', ''SKU-1'', ''SKU-2''] ?pd = [''OLD'']"
    by (simp add: model_defs example_defs)
  from C1_deletion_set [OF h1 h2 h3 h4 refl h5 h6] d show ?thesis
    by (simp add: example_world_def)
qed

text \<open>
  The claim as stated takes \<open>currentPassSkus\<close> to be the effective SKUs of all prepared
  products. A prepared product whose effective SKU is empty is not in the set that the
  code builds: with the empty SKU persisted, the pass deletes it, although it is in both
  sets of the claim.
\<close>

theorem C1_counterexample:
  "set (issuedForDeletion (calls (snd (fullSync
       (example_env\<lparr>allVariants := Inr [blank_variant]\<rparr>)
       (example_world\<lparr>products := [blank_row]\<rparr>)))))
   \<noteq> set (map prod_sku (products (example_world\<lparr>products := [blank_row]\<rparr>)))
       - (\<lambda>p. effectiveSku (variant p)) `
           set (combineProducts (categoryMap []) (itemsMap [shirt]) example_levels [blank_variant])"
  by (simp add: model_defs example_defs blank_variant_def blank_row_def)

text \<open>
  With caching on and a cached list that lacks a persisted SKU, the enumeration returns the
  cached list, and a persisted SKU that the current pass does not have is not handed to
  the store for deletion.
\<close>

lemma deletion_diff_uses_cached_list:
  "issuedForDeletion (calls (snd (fullSync (example_env\<lparr>useCache := True\<rparr>)
       (example_world\<lparr>sku_cache := Some []\<rparr>)))) = []
   \<and> map prod_sku (products (snd (fullSync (example_env\<lparr>useCache := True\<rparr>)
       (example_world\<lparr>sku_cache := Some []\<rparr>)))) = [''OLD'', ''SKU-1'', ''SKU-2'']"
  by (simp add: model_defs example_defs)

section \<open>SKU collisions\<close>

lemma combineProducts_variants:
  "map variant (combineProducts cmap imap levels variants)
     = filter (\<lambda>v. imap (item_id v) \<noteq> None) variants"
  by (induction variants)
     (auto simp: combineProducts_def combineVariant_def Let_def split: option.splits)

lemma validProducts_skus:
  "map prod_sku (validProducts pd) = filter (\<lambda>s. s \<noteq> []) (map (\<lambda>p. effectiveSku (variant p)) pd)"
  by (induction pd) (auto simp: validProducts_def toSupabaseProduct_def)

lemma find_rev_member:
  "p \<in> set vs \<Longrightarrow> find (\<lambda>q. prod_sku q = prod_sku p) (rev vs) \<noteq> None"
  by (auto simp: find_None_iff)

text \<open>
  C2 (as amended). The join does not remove duplicates: it yields one product per variant
  whose item is found, in the order of the variants, so two variants with the same
  effective SKU both appear in the sequence (and both reach the upsert when that SKU is
  not empty). The SKU is unique in the persisted table: after an upsert that the store
  accepted, the table has one row per SKU, and for every SKU of the sequence that row is
  the last product of the sequence with that SKU.
\<close>

theorem C2_sku_collisions:
  "map (\<lambda>p. effectiveSku (variant p)) (combineProducts cmap imap levels variants)
      = map effectiveSku (filter (\<lambda>v. imap (item_id v) \<noteq> None) variants)
   \<and> map prod_sku (validProducts pd)
      = filter (\<lambda>s. s \<noteq> []) (map (\<lambda>p. effectiveSku (variant p)) pd)
   \<and> (distinct (map prod_sku (products w)) \<longrightarrow> upsertProducts env pd w = (Inr n, w') \<longrightarrow>
        distinct (map prod_sku (products w')) \<and>
        (\<forall>p \<in> set (validProducts pd).
           find (\<lambda>q. prod_sku q = prod_sku p) (products w')
             = find (\<lambda>q. prod_sku q = prod_sku p) (rev (validProducts pd))))"
proof (intro conjI impI ballI)
  have "map (\<lambda>p. effectiveSku (variant p)) (combineProducts cmap imap levels variants)
      = map effectiveSku (map variant (combineProducts cmap imap levels variants))"
    by simp
  then show "map (\<lambda>p. effectiveSku (variant p)) (combineProducts cmap imap levels variants)
      = map effectiveSku (filter (\<lambda>v. imap (item_id v) \<noteq> None) variants)"
    by (simp only: combineProducts_variants)
next
  show "map prod_sku (validProducts pd)
      = filter (\<lambda>s. s \<noteq> []) (map (\<lambda>p. effectiveSku (variant p)) pd)"
    by (rule validProducts_skus)
next
  assume d: "distinct (map prod_sku (products w))"
    and u: "upsertProducts env pd w = (Inr n, w')"
  from upsertProducts_Inr [OF u]
  have p': "products w' = store_upsert (validProducts pd) (products w)" by simp
  show "distinct (map prod_sku (products w'))"
    unfolding p' using d by (rule distinct_store_upsert)
  fix p assume "p \<in> set (validProducts pd)"
  then obtain x where "find (\<lambda>q. prod_sku q = prod_sku p) (rev (validProducts pd)) = Some x"
    using find_rev_member by blast
  then show "find (\<lambda>q. prod_sku q = prod_sku p) (products w')
      = find (\<lambda>q. prod_sku q = prod_sku p) (rev (validProducts pd))"
    by (simp add: p' find_store_upsert)
qed

theorem C2_sku_collisions_witness:
  "map (\<lambda>p. (prod_sku p, prod_name p))
     (products (snd (upsertProducts example_env
        (combineProducts (categoryMap []) (itemsMap [shirt]) example_levels
           [variant_red_large, variant_same_sku]) example_world)))
     = [(''OLD'', Some ''Old''), (''SKU-1'', Some ''Shirt (Blue)'')]"
proof -
  let ?pd = "combineProducts (categoryMap []) (itemsMap [shirt]) example_levels
           [variant_red_large, variant_same_sku]"
  let ?r = "upsertProducts example_env ?pd example_world"
  have d: "distinct (map prod_sku (products example_world))"
    by (simp add: example_defs)
  have u: "?r = (Inr 2, snd ?r)"
    by (simp add: model_defs example_defs variant_same_sku_def)
  have m: "toSupabaseProduct \<lparr> variant = variant_same_sku, item = shirt,
        inventory = \<lparr> inv_variant_id = ''v3'', store_id = [], in_stock = 0, cost = None \<rparr>,
        categoryName = None \<rparr> \<in> set (validProducts ?pd)"
    by (simp add: model_defs example_defs variant_same_sku_def)
  from C2_sku_collisions [of Map.empty "itemsMap [shirt]" example_levels
      "[variant_red_large, variant_same_sku]" ?pd example_world example_env 2 "snd ?r"] d u m
  show ?thesis
    by (simp add: model_defs example_defs variant_same_sku_def)
qed

text \<open>
  The claim as stated fails in the sequence that the join produces: two variants with the
  same SKU give two products with that SKU.
\<close>

theorem C2_counterexample:
  "\<not> distinct (map prod_sku (validProducts
       (combineProducts (categoryMap []) (itemsMap [shirt]) example_levels
          [variant_red_large, variant_same_sku])))"
  by (simp add: model_defs example_defs variant_same_sku_def)

section \<open>The ledger\<close>

lemma syncToSupabase_quiet:
  "syncToSupabase env pd w = (r, w') \<Longrightarrow> noLedgerActivity w w'"
  using syncToSupabase_frame [of env pd w] by (simp add: noLedgerActivity_def)

lemma removeProducts_quiet:
  "removeProducts env pd w = (r, w') \<Longrightarrow> noLedgerActivity w w'"
  using removeProducts_frame [of env pd w] removeProducts_calls [of env pd w]
  by (simp add: noLedgerActivity_def split: sum.splits)

lemma fetchMissingItems_quiet:
  "fetchMissingItems env imap variants w = (r, w') \<Longrightarrow> noLedgerActivity w w'"
  by (auto simp: fetchMissingItems_def getAllItems_def noLedgerActivity_def
      split: if_splits sum.splits)

lemma fullSync_try_shape:
  "fullSync_try env t w = (r, n, d, w') \<Longrightarrow>
     (case r of
        Some e \<Rightarrow> noLedgerActivity w w'
      | None \<Rightarrow> \<exists>w6. noLedgerActivity w w6 \<and> w' = logSync env ''full'' n [] t Success w6)"
  by (auto simp: fullSync_try_def getAllCategories_def getAllItems_def getAllVariants_def
      getAllInventoryLevels_def Let_def noLedgerActivity_def
      split: prod.splits sum.splits
      dest!: syncToSupabase_quiet removeProducts_quiet)

lemma incrementalSync_try_shape:
  "incrementalSync_try env t l w = (r, n, d, w') \<Longrightarrow>
     (case r of
        Some e \<Rightarrow> noLedgerActivity w w' \<and> n = 0 \<and> d = 0
      | None \<Rightarrow> \<exists>w6. noLedgerActivity w w6 \<and> w' = logSync env ''incremental'' n [] t Success w6)"
  by (auto simp: incrementalSync_try_def getAllCategories_def getItemsUpdatedAfter_def
      getVariantsUpdatedAfter_def getAllInventoryLevels_def Let_def noLedgerActivity_def
      split: prod.splits sum.splits
      dest!: syncToSupabase_quiet fetchMissingItems_quiet)

lemma finishSync_ledger:
  assumes "case r of
        Some e \<Rightarrow> noLedgerActivity w1 w2
      | None \<Rightarrow> \<exists>w6. noLedgerActivity w1 w6 \<and> w2 = logSync env k n [] t Success w6"
  shows "ledgerCalls (calls (snd (finishSync env k t (r, n, d, w2))))
           = ledgerCalls (calls w1) @
               [LogSync k n (case r of None \<Rightarrow> [] | Some e \<Rightarrow> [errorMessage e]) t
                  (case r of None \<Rightarrow> Success | Some e \<Rightarrow> Failed)]
     \<and> sync_logs (snd (finishSync env k t (r, n, d, w2)))
           = (if log_insert_error env then sync_logs w1
              else sync_logs w1 @
                [\<lparr> sync_type = k, products_synced = n,
                   log_errors = (case r of None \<Rightarrow> [] | Some e \<Rightarrow> [errorMessage e]),
                   started_at = t, completed_at = clock w1,
                   status = (case r of None \<Rightarrow> Success | Some e \<Rightarrow> Failed) \<rparr>])
     \<and> clock (snd (finishSync env k t (r, n, d, w2))) = Suc (Suc (clock w1))"
  using assms
  by (cases r) (auto simp: finishSync_world logSync_simps noLedgerActivity_def)

text \<open>
  C3 (as amended). Every invocation of \<open>fullSync\<close> or \<open>incrementalSync\<close>, whether it
  ends in success or in failure, calls \<open>logSync\<close> exactly once, with the terminal status
  of the pass (an incremental sync without watermark logs through the full sync that it
  runs). When the store accepts the insert, exactly one entry is appended to the ledger,
  and its completion timestamp is the reading of the clock taken by \<open>logSync\<close>; when
  the store rejects the insert, no entry is appended.
\<close>

theorem C3_ledger_entry:
  "(case fullSync env w of (res, w') \<Rightarrow>
      ledgerCalls (calls w') = ledgerCalls (calls w) @
        [LogSync ''full'' (res_products_synced res) (res_errors res) (clock w)
           (if res_errors res = [] then Success else Failed)]
      \<and> sync_logs w' =
          (if log_insert_error env then sync_logs w
           else sync_logs w @
             [\<lparr> sync_type = ''full'', products_synced = res_products_synced res,
                log_errors = res_errors res, started_at = clock w,
                completed_at = Suc (clock w),
                status = (if res_errors res = [] then Success else Failed) \<rparr>]))
   \<and> (case incrementalSync env w of (res, w') \<Rightarrow>
      \<exists>k t. ledgerCalls (calls w') = ledgerCalls (calls w) @
        [LogSync k (res_products_synced res) (res_errors res) t
           (if res_errors res = [] then Success else Failed)]
      \<and> clock w \<le> t
      \<and> sync_logs w' =
          (if log_insert_error env then sync_logs w
           else sync_logs w @
             [\<lparr> sync_type = k, products_synced = res_products_synced res,
                log_errors = res_errors res, started_at = t, completed_at = Suc t,
                status = (if res_errors res = [] then Success else Failed) \<rparr>]))"
proof -
  have full: "ledgerCalls (calls (snd (fullSync env w))) = ledgerCalls (calls w) @
        [LogSync ''full'' (res_products_synced (fst (fullSync env w)))
           (res_errors (fst (fullSync env w))) (clock w)
           (if res_errors (fst (fullSync env w)) = [] then Success else Failed)]
      \<and> sync_logs (snd (fullSync env w)) =
          (if log_insert_error env then sync_logs w
           else sync_logs w @
             [\<lparr> sync_type = ''full'', products_synced = res_products_synced (fst (fullSync env w)),
                log_errors = res_errors (fst (fullSync env w)), started_at = clock w,
                completed_at = Suc (clock w),
                status = (if res_errors (fst (fullSync env w)) = [] then Success else Failed) \<rparr>])"
    for w
  proof -
    obtain r n d w2 where t: "fullSync_try env (clock w) (snd (newDate w)) = (r, n, d, w2)"
      by (cases "fullSync_try env (clock w) (snd (newDate w))") auto
    have f: "fullSync env w = finishSync env ''full'' (clock w) (r, n, d, w2)"
      by (simp add: fullSync_unfold t)
    show ?thesis
    proof (cases r)
      case None
      with finishSync_ledger [OF fullSync_try_shape [OF t], of d] show ?thesis
        by (simp add: f finishSync_result)
    next
      case (Some e)
      with finishSync_ledger [OF fullSync_try_shape [OF t], of d] show ?thesis
        by (simp add: f finishSync_result)
    qed
  qed
  have incr: "\<exists>k t. ledgerCalls (calls (snd (incrementalSync env w))) = ledgerCalls (calls w) @
        [LogSync k (res_products_synced (fst (incrementalSync env w)))
           (res_errors (fst (incrementalSync env w))) t
           (if res_errors (fst (incrementalSync env w)) = [] then Success else Failed)]
      \<and> clock w \<le> t
      \<and> sync_logs (snd (incrementalSync env w)) =
          (if log_insert_error env then sync_logs w
           else sync_logs w @
             [\<lparr> sync_type = k, products_synced = res_products_synced (fst (incrementalSync env w)),
                log_errors = res_errors (fst (incrementalSync env w)), started_at = t,
                completed_at = Suc t,
                status = (if res_errors (fst (incrementalSync env w)) = [] then Success
                          else Failed) \<rparr>])"
  proof -
    let ?w1 = "snd (newDate w)"
    let ?w2 = "record_call GetLastSyncTimestamp ?w1"
    have g: "getLastSyncTimestamp env ?w1 = (fst (getLastSyncTimestamp env ?w1), ?w2)"
      by (simp add: getLastSyncTimestamp_def)
    show ?thesis
    proof (cases "fst (getLastSyncTimestamp env ?w1)")
      case None
      then have "incrementalSync env w = fullSync env ?w2"
        using g by (simp add: incrementalSync_def newDate_def split: prod.splits)
      with full [of ?w2] show ?thesis
        by (intro exI [of _ "''full''"] exI [of _ "Suc (clock w)"]) simp
    next
      case (Some l)
      obtain r n d w3 where t: "incrementalSync_try env (clock w) l ?w2 = (r, n, d, w3)"
        by (cases "incrementalSync_try env (clock w) l ?w2") auto
      have i: "incrementalSync env w = finishSync env ''incremental'' (clock w) (r, n, d, w3)"
        using g Some t by (simp add: incrementalSync_def newDate_def split: prod.splits)
      have shape: "case r of
          Some e \<Rightarrow> noLedgerActivity ?w2 w3
        | None \<Rightarrow> \<exists>w6. noLedgerActivity ?w2 w6 \<and> w3 = logSync env ''incremental'' n [] (clock w) Success w6"
        using incrementalSync_try_shape [OF t] by (cases r) auto
      show ?thesis
      proof (cases r)
        case None
        with finishSync_ledger [OF shape, of d] show ?thesis
          by (intro exI [of _ "''incremental''"] exI [of _ "clock w"])
             (simp add: i finishSync_result)
      next
        case (Some e)
        with finishSync_ledger [OF shape, of d] show ?thesis
          by (intro exI [of _ "''incremental''"] exI [of _ "clock w"])
             (simp add: i finishSync_result)
      qed
    qed
  qed
  from full [of w] incr show ?thesis by (simp add: case_prod_beta)
qed

theorem C3_ledger_entry_witness:
  "sync_logs (snd (fullSync example_env example_world))
     = [\<lparr> sync_type = ''full'', products_synced = 2, log_errors = [], started_at = 0,
          completed_at = 1, status = Success \<rparr>]
   \<and> sync_logs (snd (incrementalSync example_env example_world))
     = [\<lparr> sync_type = ''full'', products_synced = 2, log_errors = [], started_at = 1,
          completed_at = 2, status = Success \<rparr>]"
  using C3_ledger_entry [where env = example_env and w = example_world]
  by (simp add: model_defs example_defs)

text \<open>
  The claim as stated fails when the store rejects the insert into the ledger: \<open>logSync\<close>
  prints the error and returns, and the pass ends without a ledger entry.
\<close>

theorem C3_counterexample:
  "sync_logs (snd (fullSync (example_env\<lparr>log_insert_error := True\<rparr>) example_world))
     = sync_logs example_world"
  by (simp add: model_defs example_defs)

section \<open>Failure handling\<close>

lemma fullSync_try_Some_iff:
  "fst (fullSync_try env t w) = Some e \<longleftrightarrow>
     allCategories env = Inl e \<or>
     (\<exists>c. allCategories env = Inr c \<and>
       (allItems env = Inl e \<or>
       (\<exists>i. allItems env = Inr i \<and>
         (allVariants env = Inl e \<or>
         (\<exists>v. allVariants env = Inr v \<and>
           (allInventoryLevels env = Inl e \<or>
           (\<exists>l. allInventoryLevels env = Inr l \<and>
             (fst (syncToSupabase env (combineProducts (categoryMap c) (itemsMap i) l v) (fetched w))
                = Inl e \<or>
              (\<exists>n. fst (syncToSupabase env (combineProducts (categoryMap c) (itemsMap i) l v)
                          (fetched w)) = Inr n \<and>
                   fst (removeProducts env (combineProducts (categoryMap c) (itemsMap i) l v)
                          (snd (syncToSupabase env (combineProducts (categoryMap c) (itemsMap i) l v)
                             (fetched w)))) = Inl e)))))))))"
  by (auto simp: fullSync_try_def getAllCategories_def getAllItems_def getAllVariants_def
      getAllInventoryLevels_def fetched_def Let_def split: prod.splits sum.splits)



lemma getLastSyncTimestamp_world [simp]:
  "snd (getLastSyncTimestamp env w) = record_call GetLastSyncTimestamp w"
  by (simp add: getLastSyncTimestamp_def)

text \<open>When the store accepts the first chunk of an upsert and rejects the second, the rows
  of the first chunk stay written and \<open>upsertProducts\<close> throws; the pass then logs
  \<open>products_synced = 0\<close>, since \<open>productsSynced\<close> is assigned only when \<open>upsertProducts\<close>
  returns.\<close>

lemma upsertProducts_partial_write:
  assumes "chunkSize < length (validProducts pd)"
    and "upsert_error env 0 = None" and "upsert_error env 1 = Some e"
  shows "upsertProducts env pd w =
     (Inl e, (record_call UpsertProducts w)
        \<lparr>products := store_upsert (take chunkSize (validProducts pd)) (products w)\<rparr>)"
proof -
  let ?vs = "validProducts pd"
  let ?w1 = "(record_call UpsertProducts w)\<lparr>products := store_upsert (take chunkSize ?vs) (products w)\<rparr>"
  have pos: "0 < chunkSize" by (simp add: chunkSize_def)
  have second: "upsertLoop env ?vs chunkSize (length (take chunkSize ?vs)) ?w1 = (Inl e, ?w1)"
    using assms pos by (subst upsertLoop.simps) (simp add: Let_def)
  have ne: "0 < length ?vs" using assms(1) by linarith
  have "upsertLoop env ?vs 0 0 (record_call UpsertProducts w) =
      upsertLoop env ?vs chunkSize (length (take chunkSize ?vs)) ?w1"
    using assms(2) pos ne by (subst upsertLoop.simps) (simp add: Let_def)
  with second show ?thesis by (simp add: upsertProducts_def)
qed



section \<open>Incremental sync without a watermark\<close>




section \<open>Repair of the item lookup\<close>








section \<open>A pass with an empty join\<close>

lemma deleteLoop_no_error:
  "\<forall>k. delete_error env k = None \<Longrightarrow> \<exists>n. fst (deleteLoop env skus i t w) = Inr n"
proof (induction env skus i t w rule: deleteLoop.induct)
  case (1 env skus i t w)
  show ?case
  proof (cases "i < length skus")
    case False
    then show ?thesis by (simp add: deleteLoop.simps)
  next
    case True
    from "1.prems" have ne: "delete_error env (i div chunkSize) = None" by simp
    from "1.IH" [OF True refl ne refl "1.prems"] True ne show ?thesis
      by (simp add: deleteLoop.simps [of env skus i] Let_def)
  qed
qed

lemma deleteProductsBySkus_no_error:
  assumes "\<forall>k. delete_error env k = None"
  shows "\<exists>n. deleteProductsBySkus env skus w = (Inr n, snd (deleteProductsBySkus env skus w))"
proof -
  from deleteLoop_no_error [OF assms]
  obtain n where "fst (deleteLoop env skus 0 0 (record_call (DeleteProductsBySkus skus) w)) = Inr n"
    by blast
  then show ?thesis
    by (cases "deleteLoop env skus 0 0 (record_call (DeleteProductsBySkus skus) w)")
       (auto simp: deleteProductsBySkus_def Let_def)
qed

lemma skusToDelete_empty_pass [simp]: "skusToDelete existingSkus [] = existingSkus"
  by (simp add: skusToDelete_def loyverseSkus_def)

lemma store_delete_all: "store_delete (map prod_sku tbl) tbl = []"
  by (simp add: store_delete_def)

text \<open>
  C10 (as amended). In a full sync whose join produces no product, \<open>upsertProducts\<close> is
  not called, and the deletion diff runs against an empty set of current SKUs: when no
  store request fails, every SKU that the enumeration returned is handed to the store for
  deletion and its row is removed. With a live enumeration (caching off, or no cached
  list) these are all persisted SKUs, and the table is empty afterwards; with a cached
  list, they are the SKUs of that list.
\<close>

theorem C10_empty_pass_deletes_all:
  assumes "allCategories env = Inr categories" and "allItems env = Inr items"
    and "allVariants env = Inr variants" and "allInventoryLevels env = Inr inventoryLevels"
    and empty: "combineProducts (categoryMap categories) (itemsMap items) inventoryLevels variants = []"
    and ex: "fst (getAllProductSkus env (fetched (snd (newDate w)))) = Inr existingSkus"
    and del: "\<forall>k. delete_error env k = None"
  shows "calls (snd (fullSync env w)) =
           calls w @ [GetAllCategories, GetAllItems, GetAllVariants, GetAllInventoryLevels,
                      GetAllProductSkus] @
             (if existingSkus = [] then [] else [DeleteProductsBySkus existingSkus]) @
             [LogSync ''full'' 0 [] (clock w) Success]
     \<and> products (snd (fullSync env w)) = store_delete existingSkus (products w)
     \<and> res_errors (fst (fullSync env w)) = []
     \<and> res_products_synced (fst (fullSync env w)) = 0
     \<and> (\<not> useCache env \<or> sku_cache w = None \<longrightarrow>
          existingSkus = map prod_sku (products w) \<and> products (snd (fullSync env w)) = [])"
proof -
  let ?w4 = "fetched (snd (newDate w))"
  obtain w5 where g: "getAllProductSkus env ?w4 = (Inr existingSkus, w5)"
    using ex by (cases "getAllProductSkus env ?w4") auto
  have w5: "calls w5 = calls ?w4 @ [GetAllProductSkus]" "products w5 = products w"
    using getAllProductSkus_frame [of env ?w4] g by simp_all
  obtain d w6 where r: "removeProducts env [] ?w4 = (Inr d, w6)"
    and c6: "calls w6 = calls w5 @
        (if existingSkus = [] then [] else [DeleteProductsBySkus existingSkus])"
    and p6: "products w6 = store_delete existingSkus (products w)"
  proof (cases "existingSkus = []")
    case True
    with g w5 that [of 0 w5] show ?thesis
      by (simp add: removeProducts_def store_delete_def)
  next
    case False
    from deleteProductsBySkus_no_error [OF del, of existingSkus w5]
    obtain n where n: "deleteProductsBySkus env existingSkus w5
        = (Inr n, snd (deleteProductsBySkus env existingSkus w5))" by blast
    from n have "products (snd (deleteProductsBySkus env existingSkus w5))
        = store_delete existingSkus (products w5)"
      by (rule deleteProductsBySkus_Inr)
    with False g w5 n that [of n "snd (deleteProductsBySkus env existingSkus w5)"]
      deleteProductsBySkus_frame [of env existingSkus w5]
    show ?thesis
      by (simp add: removeProducts_def)
  qed
  have t: "fullSync_try env (clock w) (snd (newDate w)) =
      (None, 0, d, logSync env ''full'' 0 [] (clock w) Success w6)"
    by (simp add: fullSync_try_fetched [OF assms(1-4)] empty syncToSupabase_def r)
  have live: "existingSkus = map prod_sku (products w)" if "\<not> useCache env \<or> sku_cache w = None"
    using getAllProductSkus_Inr [OF g] that by (auto split: if_splits)
  show ?thesis
    using live
    by (auto simp: fullSync_unfold t finishSync_world finishSync_result logSync_simps c6 w5 p6
        store_delete_all)
qed

theorem C10_empty_pass_deletes_all_witness:
  "calls (snd (fullSync (example_env\<lparr>allVariants := Inr []\<rparr>) example_world)) =
     [GetAllCategories, GetAllItems, GetAllVariants, GetAllInventoryLevels, GetAllProductSkus,
      DeleteProductsBySkus [''OLD''], LogSync ''full'' 0 [] 0 Success]
   \<and> products (snd (fullSync (example_env\<lparr>allVariants := Inr []\<rparr>) example_world)) = []"
proof -
  let ?E = "example_env\<lparr>allVariants := Inr []\<rparr>"
  have h1: "allCategories ?E = Inr []" and h2: "allItems ?E = Inr [shirt]"
    and h3: "allVariants ?E = Inr []" and h4: "allInventoryLevels ?E = Inr example_levels"
    by (simp_all add: example_env_def)
  have h5: "combineProducts (categoryMap []) (itemsMap [shirt]) example_levels [] = []"
    by (simp add: combineProducts_def)
  have h6: "fst (getAllProductSkus ?E (fetched (snd (newDate example_world)))) = Inr [''OLD'']"
    by (simp add: model_defs example_defs)
  have h7: "\<forall>k. delete_error ?E k = None"
    by (simp add: example_env_def)
  have h8: "\<not> useCache ?E \<or> sku_cache example_world = None"
    by (simp add: example_env_def)
  have w0: "calls example_world = []" "clock example_world = 0"
    by (simp_all add: example_world_def)
  from C10_empty_pass_deletes_all [OF h1 h2 h3 h4 h5 h6 h7] h8 show ?thesis
    by (simp add: w0 store_delete_all)
qed

text \<open>
  The claim as stated fails when the enumeration answers from the cache: with caching on
  and a cached list that lacks a persisted SKU, the pass with an empty join leaves that
  row in the table.
\<close>

theorem C10_counterexample:
  "combineProducts (categoryMap []) (itemsMap [shirt]) example_levels [] = []
   \<and> res_errors (fst (fullSync (example_env\<lparr>useCache := True, allVariants := Inr []\<rparr>)
        (example_world\<lparr>sku_cache := Some []\<rparr>))) = []
   \<and> products (snd (fullSync (example_env\<lparr>useCache := True, allVariants := Inr []\<rparr>)
        (example_world\<lparr>sku_cache := Some []\<rparr>))) = [old_row]"
  by (simp add: model_defs example_defs)

section \<open>Idempotence of the full sync\<close>

lemma fullSync_try_None:
  assumes "fullSync_try env t w = (None, n, d, w')"
  shows "\<exists>c i v l w5 w6. allCategories env = Inr c \<and> allItems env = Inr i \<and>
      allVariants env = Inr v \<and> allInventoryLevels env = Inr l \<and>
      syncToSupabase env (combineProducts (categoryMap c) (itemsMap i) l v) (fetched w) = (Inr n, w5) \<and>
      removeProducts env (combineProducts (categoryMap c) (itemsMap i) l v) w5 = (Inr d, w6) \<and>
      w' = logSync env ''full'' n [] t Success w6"
  using assms
  by (auto simp: fullSync_try_def getAllCategories_def getAllItems_def getAllVariants_def
      getAllInventoryLevels_def fetched_def Let_def split: prod.splits sum.splits)

lemma fullSync_after_upsert:
  assumes "allCategories env = Inr c" and "allItems env = Inr i"
    and "allVariants env = Inr v" and "allInventoryLevels env = Inr l"
    and "syncToSupabase env (combineProducts (categoryMap c) (itemsMap i) l v)
           (fetched (snd (newDate w))) = (Inr n, w5)"
  shows "products (snd (fullSync env w))
           = products (snd (removeProducts env (combineProducts (categoryMap c) (itemsMap i) l v) w5))
     \<and> sku_cache (snd (fullSync env w))
           = sku_cache (snd (removeProducts env (combineProducts (categoryMap c) (itemsMap i) l v) w5))
     \<and> issuedForDeletion (calls (snd (fullSync env w)))
           = issuedForDeletion (calls w) @
               (case fst (getAllProductSkus env w5) of
                  Inl e \<Rightarrow> []
                | Inr existingSkus \<Rightarrow>
                    skusToDelete existingSkus (combineProducts (categoryMap c) (itemsMap i) l v))"
proof -
  let ?pd = "combineProducts (categoryMap c) (itemsMap i) l v"
  have c5: "issuedForDeletion (calls w5) = issuedForDeletion (calls w)"
    using syncToSupabase_frame [of env ?pd "fetched (snd (newDate w))"] assms(5) by simp
  obtain r6 w6 where rp: "removeProducts env ?pd w5 = (r6, w6)"
    by (cases "removeProducts env ?pd w5")
  from removeProducts_issued [of env ?pd w5] rp
  have i6: "issuedForDeletion (calls w6) = issuedForDeletion (calls w) @
      (case fst (getAllProductSkus env w5) of
         Inl e \<Rightarrow> []
       | Inr existingSkus \<Rightarrow> skusToDelete existingSkus ?pd)"
    by (simp add: c5)
  show ?thesis
    unfolding fullSync_unfold fullSync_try_fetched [OF assms(1-4)] assms(5)
    by (cases r6) (simp_all add: rp i6 finishSync_world logSync_simps)
qed

lemma removeProducts_unchanged:
  assumes "\<And>existingSkus. fst (getAllProductSkus env w) = Inr existingSkus \<Longrightarrow>
      \<forall>p \<in> set (products w). prod_sku p \<notin> set (skusToDelete existingSkus pd)"
  shows "products (snd (removeProducts env pd w)) = products w"
proof -
  obtain r w1 where g: "getAllProductSkus env w = (r, w1)" by (cases "getAllProductSkus env w")
  then have p1: "products w1 = products w"
    using getAllProductSkus_frame [of env w] by simp
  show ?thesis
  proof (cases r)
    case (Inl e)
    with g p1 show ?thesis by (simp add: removeProducts_def)
  next
    case (Inr existingSkus)
    with g assms have "\<forall>p \<in> set (products w1). prod_sku p \<notin> set (skusToDelete existingSkus pd)"
      by (simp add: p1)
    then have "products (snd (deleteProductsBySkus env (skusToDelete existingSkus pd) w1)) = products w1"
      by (rule deleteProductsBySkus_absent)
    with g Inr p1 show ?thesis by (simp add: removeProducts_def)
  qed
qed

lemma loyverseSkus_valid: "prod_sku ` set (validProducts pd) = loyverseSkus pd"
proof -
  have "prod_sku ` set (validProducts pd) = set (map prod_sku (validProducts pd))"
    by simp
  also have "\<dots> = loyverseSkus pd"
    by (simp only: validProducts_skus loyverseSkus_def)
  finally show ?thesis .
qed

lemma skusToDelete_disjoint: "set (skusToDelete existingSkus pd) \<inter> loyverseSkus pd = {}"
  by (auto simp: skusToDelete_def)

lemma store_delete_keys:
  "p \<in> set (store_delete D tbl) \<Longrightarrow> prod_sku p \<notin> set D \<and> p \<in> set tbl"
  by (simp add: store_delete_def)

text \<open>
  C9. Let the table satisfy its primary key (one row per SKU) and let a full sync end
  without error. A second full sync with the same upstream data and the same answers of
  the store leaves the product table as the first one left it. The SKUs that the second
  run hands to the store for deletion are none when the enumeration is live, and the same
  list as in the first run when the enumeration answers from the cache (then the second
  deletion finds no row).
\<close>

theorem C9_idempotence:
  assumes pk: "distinct (map prod_sku (products w))"
    and ok: "res_errors (fst (fullSync env w)) = []"
  shows "products (snd (fullSync env (snd (fullSync env w)))) = products (snd (fullSync env w))
     \<and> (\<exists>D1 D2.
          issuedForDeletion (calls (snd (fullSync env w))) = issuedForDeletion (calls w) @ D1
        \<and> issuedForDeletion (calls (snd (fullSync env (snd (fullSync env w)))))
            = issuedForDeletion (calls (snd (fullSync env w))) @ D2
        \<and> (if useCache env then D2 = D1 else D2 = []))"
proof -
  let ?W1 = "snd (fullSync env w)"
  obtain r n d wf where t: "fullSync_try env (clock w) (snd (newDate w)) = (r, n, d, wf)"
    by (cases "fullSync_try env (clock w) (snd (newDate w))") auto
  from ok have "r = None"
    by (cases r) (simp_all add: fullSync_unfold t finishSync_result)
  with t have "fullSync_try env (clock w) (snd (newDate w)) = (None, n, d, wf)" by simp
  from fullSync_try_None [OF this] obtain c i v l w5 w6
    where f: "allCategories env = Inr c" "allItems env = Inr i" "allVariants env = Inr v"
        "allInventoryLevels env = Inr l"
      and s5: "syncToSupabase env (combineProducts (categoryMap c) (itemsMap i) l v)
          (fetched (snd (newDate w))) = (Inr n, w5)"
      and r6: "removeProducts env (combineProducts (categoryMap c) (itemsMap i) l v) w5 = (Inr d, w6)"
    by blast
  let ?pd = "combineProducts (categoryMap c) (itemsMap i) l v"
  let ?vs = "validProducts ?pd"
  let ?U = "store_upsert ?vs (products w)"
  from removeProducts_Inr [OF r6] obtain L w5'
    where g: "getAllProductSkus env w5 = (Inr L, w5')"
      and p6: "products w6 = store_delete (skusToDelete L ?pd) (products w5)"
      and k6: "sku_cache w6 = Some L"
    by blast
  let ?D1 = "skusToDelete L ?pd"
  let ?T1 = "store_delete ?D1 ?U"
  have p5: "products w5 = ?U"
    using syncToSupabase_Inr [OF s5] by simp
  have first: "products ?W1 = ?T1" "sku_cache ?W1 = Some L"
    "issuedForDeletion (calls ?W1) = issuedForDeletion (calls w) @ ?D1"
    using fullSync_after_upsert [OF f s5] by (simp_all add: r6 p6 p5 k6 g)
  \<comment> \<open>the second run\<close>
  let ?w4 = "fetched (snd (newDate ?W1))"
  have "fst (syncToSupabase env ?pd ?w4) = Inr n"
    using syncToSupabase_outcome [of env ?pd ?w4 "fetched (snd (newDate w))"] s5 by simp
  then obtain w5b where s5b: "syncToSupabase env ?pd ?w4 = (Inr n, w5b)"
    by (cases "syncToSupabase env ?pd ?w4") auto
  have disj: "set ?D1 \<inter> prod_sku ` set ?vs = {}"
    by (simp add: loyverseSkus_valid skusToDelete_disjoint)
  have p5b: "products w5b = ?T1"
    using syncToSupabase_Inr [OF s5b] by (simp add: first store_upsert_again [OF pk disj])
  have k5b: "sku_cache w5b = Some L"
    using syncToSupabase_frame [of env ?pd ?w4] s5b by (simp add: first)
  have absent: "\<forall>p \<in> set ?T1. prod_sku p \<notin> set ?D1"
    by (auto dest: store_delete_keys)
  have second: "products (snd (fullSync env ?W1)) = products (snd (removeProducts env ?pd w5b))"
    "issuedForDeletion (calls (snd (fullSync env ?W1)))
       = issuedForDeletion (calls ?W1) @
           (case fst (getAllProductSkus env w5b) of
              Inl e \<Rightarrow> [] | Inr existingSkus \<Rightarrow> skusToDelete existingSkus ?pd)"
    using fullSync_after_upsert [OF f s5b] by simp_all
  show ?thesis
  proof (cases "useCache env")
    case True
    have g2: "fst (getAllProductSkus env w5b) = Inr L"
      using getAllProductSkus_cached [OF True k5b] by simp
    have "products (snd (removeProducts env ?pd w5b)) = products w5b"
      by (rule removeProducts_unchanged) (use g2 absent p5b in auto)
    with second g2 first True p5b show ?thesis
      by (intro conjI exI [of _ ?D1]) simp_all
  next
    case False
    with getAllProductSkus_Inr [OF g] have L: "L = map prod_sku ?U"
      by (simp add: p5)
    have inL: "prod_sku p \<in> loyverseSkus ?pd" if "p \<in> set ?T1" for p
    proof -
      from that have "prod_sku p \<notin> set ?D1" and "p \<in> set ?U"
        by (auto dest: store_delete_keys)
      then show ?thesis by (auto simp: skusToDelete_def L)
    qed
    have none: "skusToDelete existingSkus ?pd = []"
      if "fst (getAllProductSkus env w5b) = Inr existingSkus" for existingSkus
    proof -
      from that obtain w' where "getAllProductSkus env w5b = (Inr existingSkus, w')"
        by (cases "getAllProductSkus env w5b") auto
      from getAllProductSkus_Inr [OF this] False have "existingSkus = map prod_sku ?T1"
        by (simp add: p5b)
      with inL have "\<forall>s \<in> set existingSkus. s \<in> loyverseSkus ?pd"
        by auto
      then show ?thesis
        unfolding skusToDelete_def by (simp add: filter_empty_conv)
    qed
    have "products (snd (removeProducts env ?pd w5b)) = products w5b"
      by (rule removeProducts_unchanged) (simp add: none)
    moreover have "(case fst (getAllProductSkus env w5b) of
              Inl e \<Rightarrow> [] | Inr existingSkus \<Rightarrow> skusToDelete existingSkus ?pd) = []"
      by (cases "fst (getAllProductSkus env w5b)") (simp_all add: none)
    ultimately show ?thesis
      using second first False p5b
      by (intro conjI exI [of _ ?D1] exI [of _ "[]"]) simp_all
  qed
qed

text \<open>Without the cache the second run deletes nothing; with the cache it repeats the
  deletion request of the first run.\<close>

theorem C9_idempotence_witness:
  "products (snd (fullSync example_env (snd (fullSync example_env example_world))))
     = products (snd (fullSync example_env example_world))
   \<and> map prod_sku (products (snd (fullSync example_env example_world))) = [''SKU-1'', ''SKU-2'']
   \<and> issuedForDeletion (calls (snd (fullSync example_env (snd (fullSync example_env example_world)))))
     = [''OLD'']
   \<and> issuedForDeletion (calls (snd (fullSync (example_env\<lparr>useCache := True\<rparr>)
        (snd (fullSync (example_env\<lparr>useCache := True\<rparr>) example_world)))))
     = [''OLD'', ''OLD'']"
proof -
  have h1: "distinct (map prod_sku (products example_world))"
    by (simp add: example_defs)
  have h2: "res_errors (fst (fullSync example_env example_world)) = []"
    by (simp add: model_defs example_defs)
  have a: "map prod_sku (products (snd (fullSync example_env example_world))) = [''SKU-1'', ''SKU-2'']"
    by (simp add: model_defs example_defs)
  have b: "issuedForDeletion (calls (snd (fullSync example_env (snd (fullSync example_env example_world)))))
     = [''OLD'']"
    by (simp add: model_defs example_defs)
  have c: "issuedForDeletion (calls (snd (fullSync (example_env\<lparr>useCache := True\<rparr>)
        (snd (fullSync (example_env\<lparr>useCache := True\<rparr>) example_world)))))
     = [''OLD'', ''OLD'']"
    by (simp add: model_defs example_defs)
  from C9_idempotence [OF h1 h2, THEN conjunct1] a b c show ?thesis
    by simp
qed

end
